theory Spec2Isabelle
  imports Complex_Main
begin

section \<open>JavaScript values and the object heap\<close>

text \<open>
  The program of \<^verbatim>\<open>app.js\<close> is untyped: a task handed to \<^verbatim>\<open>add\<close> or found in
  storage is any JavaScript value. Primitive values are immutable and compared by value;
  arrays and plain objects live in a heap and are compared by address, which is what
  \<^verbatim>\<open>===\<close> does. A number is a rational, as every finite double is: \<^verbatim>\<open>NaN\<close>, the
  infinities and the sign of zero are not modelled, nor are functions, symbols and
  prototype chains other than the built-in ones. The arithmetic of \<^verbatim>\<open>summarize\<close>
  rounds to doubles; a number read from stored text is kept as written. Strings are
  lists of 8-bit characters.
\<close>

type_synonym addr = nat

datatype jsval = Undefined | Null | Bool bool | Number rat | Str string | Ref addr

datatype obj = Array "jsval list" | Object "(string \<times> jsval) list"

type_synonym heap = "obj list"

datatype exn = TypeError | SyntaxError | SecurityError | QuotaExceededError

text \<open>Sequencing of computations that may throw: \<open>Inl\<close> is a thrown exception.\<close>

definition andThen :: "'e + 'a \<Rightarrow> ('a \<Rightarrow> 'e + 'b) \<Rightarrow> 'e + 'b" where
  "andThen m f = (case m of Inl e \<Rightarrow> Inl e | Inr x \<Rightarrow> f x)"

text \<open>An array or object literal allocates a fresh address at the end of the heap.\<close>

definition alloc :: "heap \<Rightarrow> obj \<Rightarrow> jsval \<times> heap" where
  "alloc h ob = (Ref (length h), h @ [ob])"

text \<open>
  The member expression \<^verbatim>\<open>v.k\<close> for the names the program reads (\<^verbatim>\<open>id\<close>,
  \<^verbatim>\<open>title\<close>, \<^verbatim>\<open>done\<close>): a \<^verbatim>\<open>TypeError\<close> on \<^verbatim>\<open>undefined\<close> and \<^verbatim>\<open>null\<close>,
  the own property of a plain object, and \<^verbatim>\<open>undefined\<close> everywhere else. An address
  outside the heap denotes no object.
\<close>

fun get_prop :: "heap \<Rightarrow> jsval \<Rightarrow> string \<Rightarrow> exn + jsval" where
  "get_prop h Undefined k = Inl TypeError"
| "get_prop h Null k = Inl TypeError"
| "get_prop h (Ref a) k =
     (if a < length h
      then (case h ! a of
              Object ps \<Rightarrow> Inr (case map_of ps k of Some v \<Rightarrow> v | None \<Rightarrow> Undefined)
            | Array xs \<Rightarrow> Inr Undefined)
      else Inl TypeError)"
| "get_prop h v k = Inr Undefined"

text \<open>\<^verbatim>\<open>!!v\<close>: the falsy values are \<^verbatim>\<open>undefined\<close>, \<^verbatim>\<open>null\<close>, \<^verbatim>\<open>false\<close>, \<^verbatim>\<open>0\<close> and \<^verbatim>\<open>""\<close>.\<close>

fun truthy :: "jsval \<Rightarrow> bool" where
  "truthy Undefined = False"
| "truthy Null = False"
| "truthy (Bool b) = b"
| "truthy (Number q) = (q \<noteq> 0)"
| "truthy (Str s) = (s \<noteq> [])"
| "truthy (Ref a) = True"

definition isArray :: "heap \<Rightarrow> jsval \<Rightarrow> bool" where
  "isArray h v =
     (case v of
        Ref a \<Rightarrow> a < length h \<and> (case h ! a of Array xs \<Rightarrow> True | Object ps \<Rightarrow> False)
      | _ \<Rightarrow> False)"

text \<open>
  Calling an array method (\<^verbatim>\<open>map\<close>, \<^verbatim>\<open>filter\<close>, \<^verbatim>\<open>concat\<close>) on a value: only an
  array has the method, anything else throws a \<^verbatim>\<open>TypeError\<close>.
\<close>

definition elems :: "heap \<Rightarrow> jsval \<Rightarrow> exn + jsval list" where
  "elems h v =
     (case v of
        Ref a \<Rightarrow>
          (if a < length h
           then (case h ! a of Array xs \<Rightarrow> Inr xs | Object ps \<Rightarrow> Inl TypeError)
           else Inl TypeError)
      | _ \<Rightarrow> Inl TypeError)"

text \<open>\<^verbatim>\<open>xs.map(f)\<close>: the callback runs on each element in order and may allocate or throw.\<close>

fun map_cb :: "(heap \<Rightarrow> jsval \<Rightarrow> exn + jsval \<times> heap) \<Rightarrow> heap \<Rightarrow> jsval list
    \<Rightarrow> exn + jsval list \<times> heap" where
  "map_cb f h [] = Inr ([], h)"
| "map_cb f h (x # xs) =
     andThen (f h x) (\<lambda>(y, h1).
     andThen (map_cb f h1 xs) (\<lambda>(ys, h2). Inr (y # ys, h2)))"

definition Array_map :: "(heap \<Rightarrow> jsval \<Rightarrow> exn + jsval \<times> heap) \<Rightarrow> heap \<Rightarrow> jsval
    \<Rightarrow> exn + jsval \<times> heap" where
  "Array_map f h v =
     andThen (elems h v) (\<lambda>xs.
     andThen (map_cb f h xs) (\<lambda>(ys, h1). Inr (alloc h1 (Array ys))))"

text \<open>\<^verbatim>\<open>xs.filter(p)\<close>: keeps the elements on which the callback returns a truthy value.\<close>

fun filter_cb :: "(heap \<Rightarrow> jsval \<Rightarrow> exn + jsval) \<Rightarrow> heap \<Rightarrow> jsval list \<Rightarrow> exn + jsval list" where
  "filter_cb p h [] = Inr []"
| "filter_cb p h (x # xs) =
     andThen (p h x) (\<lambda>keep.
     andThen (filter_cb p h xs) (\<lambda>ys. Inr (if truthy keep then x # ys else ys)))"

definition Array_filter :: "(heap \<Rightarrow> jsval \<Rightarrow> exn + jsval) \<Rightarrow> heap \<Rightarrow> jsval
    \<Rightarrow> exn + jsval \<times> heap" where
  "Array_filter p h v =
     andThen (elems h v) (\<lambda>xs.
     andThen (filter_cb p h xs) (\<lambda>ys. Inr (alloc h (Array ys))))"

text \<open>\<^verbatim>\<open>xs.concat(ys)\<close> with an array argument: a new array of both element lists.\<close>

definition Array_concat :: "heap \<Rightarrow> jsval \<Rightarrow> jsval \<Rightarrow> exn + jsval \<times> heap" where
  "Array_concat h v arg =
     andThen (elems h v) (\<lambda>xs.
     andThen (elems h arg) (\<lambda>ys. Inr (alloc h (Array (xs @ ys)))))"

text \<open>The object literal \<^verbatim>\<open>{ id: i, title: t, done: d }\<close>.\<close>

definition task_literal :: "heap \<Rightarrow> jsval \<Rightarrow> jsval \<Rightarrow> jsval \<Rightarrow> jsval \<times> heap" where
  "task_literal h i t d = alloc h (Object [(''id'', i), (''title'', t), (''done'', d)])"

section \<open>Reading a task list out of the heap\<close>

text \<open>
  What an observer sees of a snapshot: the \<^verbatim>\<open>id\<close>, \<^verbatim>\<open>title\<close> and \<^verbatim>\<open>done\<close> of each
  element, in order. \<open>None\<close> when the value is not an array of objects.
\<close>

type_synonym task = "jsval \<times> jsval \<times> jsval"

definition read_task :: "heap \<Rightarrow> jsval \<Rightarrow> task option" where
  "read_task h v =
     (case v of
        Ref a \<Rightarrow>
          (if a < length h
           then (case h ! a of
                   Object ps \<Rightarrow>
                     (case (get_prop h v ''id'', get_prop h v ''title'', get_prop h v ''done'') of
                        (Inr i, Inr t, Inr d) \<Rightarrow> Some (i, t, d)
                      | _ \<Rightarrow> None)
                 | Array xs \<Rightarrow> None)
           else None)
      | _ \<Rightarrow> None)"

fun read_all :: "heap \<Rightarrow> jsval list \<Rightarrow> task list option" where
  "read_all h [] = Some []"
| "read_all h (x # xs) =
     (case read_task h x of
        None \<Rightarrow> None
      | Some t \<Rightarrow> (case read_all h xs of None \<Rightarrow> None | Some ts \<Rightarrow> Some (t # ts)))"

definition read_tasks :: "heap \<Rightarrow> jsval \<Rightarrow> task list option" where
  "read_tasks h v = (case elems h v of Inl e \<Rightarrow> None | Inr xs \<Rightarrow> read_all h xs)"

section \<open>Double-precision arithmetic\<close>

text \<open>
  The arithmetic of \<^verbatim>\<open>summarize\<close> is IEEE-754 double precision. A finite double is a
  rational number, and the result of an operation is the exact result rounded to the
  nearest double, a tie going to the even significand. \<open>bits n\<close> is the length of the
  binary numeral of \<open>n\<close>, \<open>ilog2 x\<close> the exponent of the power of two at or below a
  positive \<open>x\<close>, and \<open>rnd x\<close> the double nearest to \<open>x\<close>: a multiple of the power of two
  52 places below the leading bit of \<open>x\<close>, or of \<open>pow2 (- 1074)\<close> in the subnormal range.
  Overflow to infinity is left out: no number of \<^verbatim>\<open>summarize\<close> exceeds 1000.
\<close>

function bits :: "int \<Rightarrow> int" where
  "bits n = (if n \<le> 0 then 0 else bits (n div 2) + 1)"
  by pat_completeness auto

termination
  by (relation "measure nat") auto

declare bits.simps [simp del]

definition pow2 :: "int \<Rightarrow> rat" where
  "pow2 e = (if 0 \<le> e then 2 ^ nat e else 1 / 2 ^ nat (- e))"

definition ilog2 :: "rat \<Rightarrow> int" where
  "ilog2 x =
     (case quotient_of x of (p, q) \<Rightarrow>
        (let d = bits p - bits q
         in if pow2 d \<le> x then d else d - 1))"

definition round_even :: "rat \<Rightarrow> int" where
  "round_even y =
     (let f = \<lfloor>y\<rfloor>; r = y - of_int f
      in if r < 1 / 2 then f else if 1 / 2 < r then f + 1 else if even f then f else f + 1)"

definition rnd :: "rat \<Rightarrow> rat" where
  "rnd x =
     (if x = 0 then 0
      else (let q = pow2 (max (ilog2 \<bar>x\<bar> - 52) (- 1074))
            in of_int (round_even (x / q)) * q))"

text \<open>The operators \<^verbatim>\<open>+\<close>, \<^verbatim>\<open>*\<close> and \<^verbatim>\<open>/\<close> on doubles.\<close>

definition fadd :: "rat \<Rightarrow> rat \<Rightarrow> rat" where
  "fadd a b = rnd (a + b)"

definition fmul :: "rat \<Rightarrow> rat \<Rightarrow> rat" where
  "fmul a b = rnd (a * b)"

definition fdiv :: "rat \<Rightarrow> rat \<Rightarrow> rat" where
  "fdiv a b = rnd (a / b)"

text \<open>
  \<^verbatim>\<open>Math.round\<close> gives the nearest integer, a half going upwards; the result is exact.
\<close>

definition Math_round :: "rat \<Rightarrow> rat" where
  "Math_round x = of_int \<lfloor>x + 1 / 2\<rfloor>"

section \<open>summarize\<close>

record summary =
  s_active :: nat
  s_done :: nat
  s_pct :: rat

text \<open>
  The arrays made by the two \<^verbatim>\<open>filter\<close> calls are dropped after their length is taken,
  so the heap is not returned. The two lengths are integers, and \<^verbatim>\<open>total\<close> and \<^verbatim>\<open>pct\<close>
  are computed in doubles, operation by operation, as
  \<^verbatim>\<open>Math.round((done / total) * 1000) / 10\<close> is.
\<close>

definition summarize :: "heap \<Rightarrow> jsval \<Rightarrow> exn + summary" where
  "summarize h tasks =
     andThen (Array_filter (\<lambda>h t. andThen (get_prop h t ''done'') (\<lambda>d. Inr (Bool (\<not> truthy d)))) h tasks)
       (\<lambda>(act, h1).
     andThen (elems h1 act) (\<lambda>acts.
     andThen (Array_filter (\<lambda>h t. get_prop h t ''done'') h1 tasks) (\<lambda>(don, h2).
     andThen (elems h2 don) (\<lambda>dons.
       let active = length acts;
           done = length dons;
           total = fadd (of_nat active) (of_nat done);
           pct = (if total = 0 then 0
                  else fdiv (Math_round (fmul (fdiv (of_nat done) total) 1000)) 10)
       in Inr \<lparr>s_active = active, s_done = done, s_pct = pct\<rparr>))))"

section \<open>JSON text\<close>

text \<open>
  \<^verbatim>\<open>JSON.parse\<close> and \<^verbatim>\<open>JSON.stringify\<close> belong to the platform. They are modelled on
  the JSON grammar: \<^verbatim>\<open>parse_value\<close> is a recursive-descent parser producing a
  syntax tree, \<^verbatim>\<open>materialize\<close> builds the tree in the heap, and \<^verbatim>\<open>ser\<close> walks the heap
  the way \<^verbatim>\<open>JSON.stringify\<close> does. A number literal denotes its exact value; a
  \<^verbatim>\<open>\u\<close> escape above \<^verbatim>\<open>00FF\<close> denotes a character outside the model and is
  refused; the enumeration order of integer-like property names is not modelled.
\<close>

datatype json = JNull | JBool bool | JNum rat | JStr string
  | JArr "json list" | JObj "(string \<times> json) list"

definition is_ws :: "char \<Rightarrow> bool" where
  "is_ws c = (c = CHR '' '' \<or> c = CHR 0x09 \<or> c = CHR 0x0A \<or> c = CHR 0x0D)"

definition skip_ws :: "string \<Rightarrow> string" where
  "skip_ws cs = dropWhile is_ws cs"

definition is_digit :: "char \<Rightarrow> bool" where
  "is_digit c = (48 \<le> (of_char c :: nat) \<and> (of_char c :: nat) \<le> 57)"

definition digits_val :: "string \<Rightarrow> nat" where
  "digits_val ds = foldl (\<lambda>n c. 10 * n + ((of_char c :: nat) - 48)) 0 ds"

definition hex_val :: "char \<Rightarrow> nat option" where
  "hex_val c =
     (let n = (of_char c :: nat)
      in if 48 \<le> n \<and> n \<le> 57 then Some (n - 48)
         else if 97 \<le> n \<and> n \<le> 102 then Some (n - 87)
         else if 65 \<le> n \<and> n \<le> 70 then Some (n - 55)
         else None)"

text \<open>The character after a backslash, for the two-character escapes.\<close>

definition unescape :: "char \<Rightarrow> char option" where
  "unescape e =
     (if e = CHR 0x22 then Some (CHR 0x22)
      else if e = CHR 0x5C then Some (CHR 0x5C)
      else if e = CHR ''/'' then Some (CHR ''/'')
      else if e = CHR ''b'' then Some (CHR 0x08)
      else if e = CHR ''f'' then Some (CHR 0x0C)
      else if e = CHR ''n'' then Some (CHR 0x0A)
      else if e = CHR ''r'' then Some (CHR 0x0D)
      else if e = CHR ''t'' then Some (CHR 0x09)
      else None)"

text \<open>
  The characters of a string literal after its opening quote, up to the closing quote;
  returns the string and the rest of the input.
\<close>

fun parse_chars :: "string \<Rightarrow> (string \<times> string) option" where
  "parse_chars [] = None"
| "parse_chars (c # cs) =
     (if c = CHR 0x22 then Some ([], cs)
      else if c = CHR 0x5C then
        (case cs of
           [] \<Rightarrow> None
         | e # r \<Rightarrow>
             if e = CHR ''u'' then
               (case r of
                  x1 # x2 # x3 # x4 # r' \<Rightarrow>
                    (case (hex_val x1, hex_val x2, hex_val x3, hex_val x4) of
                       (Some n1, Some n2, Some n3, Some n4) \<Rightarrow>
                         (let n = ((n1 * 16 + n2) * 16 + n3) * 16 + n4
                          in if n < 256
                             then map_option (\<lambda>(s, rest). (char_of n # s, rest)) (parse_chars r')
                             else None)
                     | _ \<Rightarrow> None)
                | _ \<Rightarrow> None)
             else
               (case unescape e of
                  None \<Rightarrow> None
                | Some ch \<Rightarrow> map_option (\<lambda>(s, rest). (ch # s, rest)) (parse_chars r)))
      else if (of_char c :: nat) < 32 then None
      else map_option (\<lambda>(s, rest). (c # s, rest)) (parse_chars cs))"

text \<open>
  A number: an optional minus, an integer part without a leading zero, an optional
  fraction and an optional exponent.
\<close>

definition parse_sign :: "string \<Rightarrow> bool \<times> string" where
  "parse_sign cs =
     (case cs of
        [] \<Rightarrow> (False, cs)
      | c # r \<Rightarrow> if c = CHR ''-'' then (True, r) else if c = CHR ''+'' then (False, r) else (False, cs))"

definition parse_number :: "string \<Rightarrow> (rat \<times> string) option" where
  "parse_number cs =
     (let (neg, cs1) = (case cs of [] \<Rightarrow> (False, cs)
                        | c # r \<Rightarrow> if c = CHR ''-'' then (True, r) else (False, cs));
          ip = takeWhile is_digit cs1;
          cs2 = dropWhile is_digit cs1;
          (fp, cs3, okf) =
            (case cs2 of [] \<Rightarrow> ([], cs2, True)
             | c # r \<Rightarrow> if c = CHR ''.''
                        then (takeWhile is_digit r, dropWhile is_digit r, takeWhile is_digit r \<noteq> [])
                        else ([], cs2, True));
          (ex, cs4, oke) =
            (case cs3 of [] \<Rightarrow> (0, cs3, True)
             | c # r \<Rightarrow> if c = CHR ''e'' \<or> c = CHR ''E''
                        then (let (eneg, r1) = parse_sign r;
                                  ed = takeWhile is_digit r1
                              in (if eneg then - int (digits_val ed) else int (digits_val ed),
                                  dropWhile is_digit r1, ed \<noteq> []))
                        else (0, cs3, True));
          m = (of_nat (digits_val (ip @ fp)) :: rat);
          e10 = ex - int (length fp);
          v = (if 0 \<le> e10 then m * 10 ^ nat e10 else m / 10 ^ nat (- e10))
      in if ip = [] \<or> (1 < length ip \<and> hd ip = CHR ''0'') \<or> \<not> okf \<or> \<not> oke then None
         else Some (if neg then - v else v, cs4))"

text \<open>
  The value parser. The first argument bounds the nesting depth still allowed; every
  call passes a smaller bound on, and \<^verbatim>\<open>JSON_parse_tree\<close> starts with more than any
  text of that length can use.
\<close>

fun parse_value :: "nat \<Rightarrow> string \<Rightarrow> (json \<times> string) option"
  and parse_elems :: "nat \<Rightarrow> string \<Rightarrow> (json list \<times> string) option"
  and parse_members :: "nat \<Rightarrow> string \<Rightarrow> ((string \<times> json) list \<times> string) option"
where
  "parse_value 0 cs = None"
| "parse_value (Suc n) cs =
     (case skip_ws cs of
        [] \<Rightarrow> None
      | c # r \<Rightarrow>
          if c = CHR ''['' then
            (case skip_ws r of
               [] \<Rightarrow> None
             | c1 # r1 \<Rightarrow>
                 if c1 = CHR '']'' then Some (JArr [], r1)
                 else map_option (\<lambda>(vs, rest). (JArr vs, rest)) (parse_elems n r))
          else if c = CHR ''{'' then
            (case skip_ws r of
               [] \<Rightarrow> None
             | c1 # r1 \<Rightarrow>
                 if c1 = CHR ''}'' then Some (JObj [], r1)
                 else map_option (\<lambda>(ms, rest). (JObj ms, rest)) (parse_members n r))
          else if c = CHR 0x22 then map_option (\<lambda>(s, rest). (JStr s, rest)) (parse_chars r)
          else if take 4 (c # r) = ''true'' then Some (JBool True, drop 4 (c # r))
          else if take 5 (c # r) = ''false'' then Some (JBool False, drop 5 (c # r))
          else if take 4 (c # r) = ''null'' then Some (JNull, drop 4 (c # r))
          else map_option (\<lambda>(q, rest). (JNum q, rest)) (parse_number (c # r)))"
| "parse_elems 0 cs = None"
| "parse_elems (Suc n) cs =
     (case parse_value n cs of
        None \<Rightarrow> None
      | Some (v, r) \<Rightarrow>
          (case skip_ws r of
             [] \<Rightarrow> None
           | c # r1 \<Rightarrow>
               if c = CHR '','' then map_option (\<lambda>(vs, rest). (v # vs, rest)) (parse_elems n r1)
               else if c = CHR '']'' then Some ([v], r1)
               else None))"
| "parse_members 0 cs = None"
| "parse_members (Suc n) cs =
     (case skip_ws cs of
        [] \<Rightarrow> None
      | c # r \<Rightarrow>
          if c \<noteq> CHR 0x22 then None
          else
            (case parse_chars r of
               None \<Rightarrow> None
             | Some (k, r1) \<Rightarrow>
                 (case skip_ws r1 of
                    [] \<Rightarrow> None
                  | c1 # r2 \<Rightarrow>
                      if c1 \<noteq> CHR '':'' then None
                      else
                        (case parse_value n r2 of
                           None \<Rightarrow> None
                         | Some (v, r3) \<Rightarrow>
                             (case skip_ws r3 of
                                [] \<Rightarrow> None
                              | c2 # r4 \<Rightarrow>
                                  if c2 = CHR '','' then
                                    map_option (\<lambda>(ms, rest). ((k, v) # ms, rest)) (parse_members n r4)
                                  else if c2 = CHR ''}'' then Some ([(k, v)], r4)
                                  else None)))))"

definition JSON_parse_tree :: "string \<Rightarrow> json option" where
  "JSON_parse_tree cs =
     (case parse_value (2 * length cs + 2) cs of
        None \<Rightarrow> None
      | Some (v, rest) \<Rightarrow> if skip_ws rest = [] then Some v else None)"

text \<open>
  Defining a property: a repeated name keeps its first position and takes the last value.
\<close>

fun set_prop :: "string \<Rightarrow> jsval \<Rightarrow> (string \<times> jsval) list \<Rightarrow> (string \<times> jsval) list" where
  "set_prop k v [] = [(k, v)]"
| "set_prop k v (p # ps) = (if fst p = k then (k, v) # ps else p # set_prop k v ps)"

definition make_props :: "(string \<times> jsval) list \<Rightarrow> (string \<times> jsval) list" where
  "make_props ps = foldl (\<lambda>acc p. set_prop (fst p) (snd p) acc) [] ps"

fun materialize :: "json \<Rightarrow> heap \<Rightarrow> jsval \<times> heap"
  and materialize_list :: "json list \<Rightarrow> heap \<Rightarrow> jsval list \<times> heap"
  and materialize_props :: "(string \<times> json) list \<Rightarrow> heap \<Rightarrow> (string \<times> jsval) list \<times> heap"
where
  "materialize JNull h = (Null, h)"
| "materialize (JBool b) h = (Bool b, h)"
| "materialize (JNum q) h = (Number q, h)"
| "materialize (JStr s) h = (Str s, h)"
| "materialize (JArr vs) h = (case materialize_list vs h of (xs, h1) \<Rightarrow> alloc h1 (Array xs))"
| "materialize (JObj ms) h =
     (case materialize_props ms h of (ps, h1) \<Rightarrow> alloc h1 (Object (make_props ps)))"
| "materialize_list [] h = ([], h)"
| "materialize_list (v # vs) h =
     (case materialize v h of (x, h1) \<Rightarrow>
        (case materialize_list vs h1 of (xs, h2) \<Rightarrow> (x # xs, h2)))"
| "materialize_props [] h = ([], h)"
| "materialize_props (m # ms) h =
     (case materialize (snd m) h of (x, h1) \<Rightarrow>
        (case materialize_props ms h1 of (ps, h2) \<Rightarrow> ((fst m, x) # ps, h2)))"

text \<open>\<^verbatim>\<open>JSON.parse(raw)\<close>: the argument is converted to a string first.\<close>

definition to_text :: "jsval \<Rightarrow> string" where
  "to_text v = (case v of Str s \<Rightarrow> s | Null \<Rightarrow> ''null'' | Undefined \<Rightarrow> ''undefined''
                | Bool b \<Rightarrow> (if b then ''true'' else ''false'') | _ \<Rightarrow> ''[object Object]'')"

definition JSON_parse :: "heap \<Rightarrow> jsval \<Rightarrow> exn + jsval \<times> heap" where
  "JSON_parse h raw =
     (case JSON_parse_tree (to_text raw) of
        None \<Rightarrow> Inl SyntaxError
      | Some t \<Rightarrow> Inr (materialize t h))"

subsection \<open>Serialisation\<close>

definition hex_digit :: "nat \<Rightarrow> char" where
  "hex_digit n = (if n < 10 then char_of (48 + n) else char_of (87 + n))"

definition escape_char :: "char \<Rightarrow> string" where
  "escape_char c =
     (if c = CHR 0x22 then [CHR 0x5C, CHR 0x22]
      else if c = CHR 0x5C then [CHR 0x5C, CHR 0x5C]
      else if c = CHR 0x08 then [CHR 0x5C, CHR ''b'']
      else if c = CHR 0x0C then [CHR 0x5C, CHR ''f'']
      else if c = CHR 0x0A then [CHR 0x5C, CHR ''n'']
      else if c = CHR 0x0D then [CHR 0x5C, CHR ''r'']
      else if c = CHR 0x09 then [CHR 0x5C, CHR ''t'']
      else if (of_char c :: nat) < 32
        then [CHR 0x5C, CHR ''u'', CHR ''0'', CHR ''0'',
              hex_digit ((of_char c :: nat) div 16), hex_digit ((of_char c :: nat) mod 16)]
      else [c])"

definition quote :: "string \<Rightarrow> string" where
  "quote s = CHR 0x22 # concat (map escape_char s) @ [CHR 0x22]"

fun show_nat :: "nat \<Rightarrow> string" where
  "show_nat n = (if n < 10 then [char_of (48 + n)] else show_nat (n div 10) @ [char_of (48 + n mod 10)])"

text \<open>
  A number is written with as many fraction digits as its exact value needs (every
  floating-point number has a finite decimal expansion).
\<close>

definition frac_digits :: "rat \<Rightarrow> nat" where
  "frac_digits q =
     (let d = nat (snd (quotient_of q))
      in case find (\<lambda>k. d dvd 10 ^ k) [0..<Suc d] of Some k \<Rightarrow> k | None \<Rightarrow> 0)"

definition show_number :: "rat \<Rightarrow> string" where
  "show_number q =
     (let k = frac_digits q;
          ds = show_nat (nat \<lfloor>\<bar>q\<bar> * 10 ^ k\<rfloor>);
          padded = replicate (Suc k - length ds) (CHR ''0'') @ ds;
          ip = take (length padded - k) padded;
          fp = drop (length padded - k) padded
      in (if q < 0 then ''-'' else []) @ ip @ (if k = 0 then [] else CHR ''.'' # fp))"

fun join :: "string list \<Rightarrow> string" where
  "join [] = []"
| "join [x] = x"
| "join (x # y # ys) = x @ CHR '','' # join (y # ys)"

fun sequence :: "('e + 'a) list \<Rightarrow> 'e + 'a list" where
  "sequence [] = Inr []"
| "sequence (m # ms) = andThen m (\<lambda>x. andThen (sequence ms) (\<lambda>xs. Inr (x # xs)))"

text \<open>
  \<^verbatim>\<open>ser h stk v\<close> serialises \<open>v\<close>; \<open>stk\<close> holds the objects being serialised, and meeting
  one of them again is the \<^verbatim>\<open>TypeError\<close> of a cyclic structure. \<open>None\<close> is the result
  \<^verbatim>\<open>undefined\<close>: such a property is left out of an object and written \<^verbatim>\<open>null\<close> in an
  array.
\<close>

function ser :: "heap \<Rightarrow> addr list \<Rightarrow> jsval \<Rightarrow> exn + string option" where
  "ser h stk Undefined = Inr None"
| "ser h stk Null = Inr (Some ''null'')"
| "ser h stk (Bool b) = Inr (Some (if b then ''true'' else ''false''))"
| "ser h stk (Number q) = Inr (Some (show_number q))"
| "ser h stk (Str s) = Inr (Some (quote s))"
| "ser h stk (Ref a) =
     (if a \<in> set stk \<or> \<not> a < length h then Inl TypeError
      else
        (case h ! a of
           Array xs \<Rightarrow>
             andThen (sequence (map (ser h (a # stk)) xs)) (\<lambda>parts.
               Inr (Some (''['' @ join (map (\<lambda>p. case p of None \<Rightarrow> ''null'' | Some t \<Rightarrow> t) parts)
                          @ '']'')))
         | Object ps \<Rightarrow>
             andThen (sequence (map (\<lambda>p. andThen (ser h (a # stk) (snd p)) (\<lambda>r. Inr (fst p, r))) ps))
               (\<lambda>parts.
               Inr (Some (''{'' @ join (concat (map (\<lambda>p. case snd p of None \<Rightarrow> []
                                                     | Some t \<Rightarrow> [quote (fst p) @ '':'' @ t]) parts))
                          @ ''}'')))))"
  by pat_completeness auto
termination
proof (relation "measure (\<lambda>(h, stk, v). card ({..<length h} - set stk))")
  show "wf (measure (\<lambda>(h, stk, v). card ({..<length h} - set stk)))"
    by simp
next
  fix h :: heap and stk :: "addr list" and a :: addr and xs x
  assume "\<not> (a \<in> set stk \<or> \<not> a < length h)"
  then have "{..<length h} - set (a # stk) \<subset> {..<length h} - set stk"
    by auto
  then have "card ({..<length h} - set (a # stk)) < card ({..<length h} - set stk)"
    by (intro psubset_card_mono) auto
  then show "((h, a # stk, x), (h, stk, Ref a)) \<in> measure (\<lambda>(h, stk, v). card ({..<length h} - set stk))"
    by simp
next
  fix h :: heap and stk :: "addr list" and a :: addr and ps :: "(string \<times> jsval) list" and p
  assume "\<not> (a \<in> set stk \<or> \<not> a < length h)"
  then have "{..<length h} - set (a # stk) \<subset> {..<length h} - set stk"
    by auto
  then have "card ({..<length h} - set (a # stk)) < card ({..<length h} - set stk)"
    by (intro psubset_card_mono) auto
  then show "((h, a # stk, snd p), (h, stk, Ref a)) \<in> measure (\<lambda>(h, stk, v). card ({..<length h} - set stk))"
    by simp
qed

definition JSON_stringify :: "heap \<Rightarrow> jsval \<Rightarrow> exn + string option" where
  "JSON_stringify h v = ser h [] v"

section \<open>The browser: localStorage and the console\<close>

datatype log_entry = LogWarn string exn | LogError string exn

text \<open>
  \<open>readable\<close> is false when access to storage is denied (\<^verbatim>\<open>getItem\<close> and \<^verbatim>\<open>setItem\<close>
  throw); \<open>accepts k v\<close> is false when writing \<open>v\<close> under \<open>k\<close> exceeds the quota.
\<close>

record world =
  heap :: heap
  items :: "string \<Rightarrow> string option"
  readable :: bool
  accepts :: "string \<Rightarrow> string \<Rightarrow> bool"
  console :: "log_entry list"

definition getItem :: "world \<Rightarrow> string \<Rightarrow> exn + jsval" where
  "getItem w k =
     (if readable w then Inr (case items w k of None \<Rightarrow> Null | Some v \<Rightarrow> Str v)
      else Inl SecurityError)"

definition setItem :: "world \<Rightarrow> string \<Rightarrow> string option \<Rightarrow> exn + world" where
  "setItem w k v =
     (let txt = (case v of None \<Rightarrow> ''undefined'' | Some t \<Rightarrow> t)
      in if \<not> readable w then Inl SecurityError
         else if \<not> accepts w k txt then Inl QuotaExceededError
         else Inr (w\<lparr>items := (items w)(k \<mapsto> txt)\<rparr>))"

section \<open>createStore\<close>

text \<open>The closure: its parameter \<^verbatim>\<open>storageKey\<close> and its variable \<^verbatim>\<open>state\<close>.\<close>

record store =
  storageKey :: string
  state :: jsval

text \<open>\<^verbatim>\<open>item => ({ id: item.id, title: item.title, done: !!item.done })\<close>\<close>

definition hydrate_item :: "heap \<Rightarrow> jsval \<Rightarrow> exn + jsval \<times> heap" where
  "hydrate_item h item =
     andThen (get_prop h item ''id'') (\<lambda>i.
     andThen (get_prop h item ''title'') (\<lambda>t.
     andThen (get_prop h item ''done'') (\<lambda>d.
       Inr (task_literal h i t (Bool (truthy d))))))"

text \<open>
  The body of the \<^verbatim>\<open>try\<close> block: the value of \<^verbatim>\<open>state\<close> after it, or the exception
  that leaves it.
\<close>

definition hydrate :: "string \<Rightarrow> world \<Rightarrow> jsval \<Rightarrow> exn + jsval \<times> heap" where
  "hydrate key w state0 =
     andThen (getItem w key) (\<lambda>raw.
       if truthy raw then
         andThen (JSON_parse (heap w) raw) (\<lambda>(parsed, h1).
           if isArray h1 parsed then Array_map hydrate_item h1 parsed
           else Inr (state0, h1))
       else Inr (state0, heap w))"

definition createStore :: "string \<Rightarrow> world \<Rightarrow> store \<times> world" where
  "createStore key w =
     (case alloc (heap w) (Array []) of (state0, h0) \<Rightarrow>
        (case hydrate key (w\<lparr>heap := h0\<rparr>) state0 of
           Inr (state1, h1) \<Rightarrow> (\<lparr>storageKey = key, state = state1\<rparr>, w\<lparr>heap := h1\<rparr>)
         | Inl e \<Rightarrow>
             (case alloc h0 (Array []) of (state1, h1) \<Rightarrow>
                (\<lparr>storageKey = key, state = state1\<rparr>,
                 w\<lparr>heap := h1, console := console w @ [LogWarn ''Failed to hydrate store:'' e]\<rparr>))))"

definition persist :: "store \<Rightarrow> world \<Rightarrow> world" where
  "persist s w =
     (case andThen (JSON_stringify (heap w) (state s)) (\<lambda>txt. setItem w (storageKey s) txt) of
        Inr w1 \<Rightarrow> w1
      | Inl e \<Rightarrow> w\<lparr>console := console w @ [LogError ''Failed to persist store:'' e]\<rparr>)"

text \<open>
  The body of the \<^verbatim>\<open>try\<close> block of \<^verbatim>\<open>persist\<close>, the write itself:
  \<^verbatim>\<open>localStorage.setItem(storageKey, JSON.stringify(state))\<close>. It fails when the state
  cannot be serialized or when the storage throws.
\<close>

definition write_state :: "store \<Rightarrow> world \<Rightarrow> exn + world" where
  "write_state s w = andThen (JSON_stringify (heap w) (state s)) (\<lambda>txt. setItem w (storageKey s) txt)"

text \<open>\<^verbatim>\<open>item => ({ id: item.id, title: item.title, done: item.done })\<close>\<close>

definition copy_item :: "heap \<Rightarrow> jsval \<Rightarrow> exn + jsval \<times> heap" where
  "copy_item h item =
     andThen (get_prop h item ''id'') (\<lambda>i.
     andThen (get_prop h item ''title'') (\<lambda>t.
     andThen (get_prop h item ''done'') (\<lambda>d.
       Inr (task_literal h i t d))))"

definition list :: "store \<Rightarrow> world \<Rightarrow> exn + jsval \<times> world" where
  "list s w =
     andThen (Array_map copy_item (heap w) (state s)) (\<lambda>(snap, h1). Inr (snap, w\<lparr>heap := h1\<rparr>))"

definition add :: "store \<Rightarrow> jsval \<Rightarrow> world \<Rightarrow> exn + jsval \<times> store \<times> world" where
  "add s task w =
     andThen (get_prop (heap w) task ''id'') (\<lambda>i.
     andThen (get_prop (heap w) task ''title'') (\<lambda>t.
     andThen (get_prop (heap w) task ''done'') (\<lambda>d.
       (case task_literal (heap w) i t (Bool (truthy d)) of (r, h1) \<Rightarrow>
       (case alloc h1 (Array [r]) of (arg, h2) \<Rightarrow>
          andThen (Array_concat h2 (state s) arg) (\<lambda>(state1, h3).
            (let s1 = s\<lparr>state := state1\<rparr>;
                 w1 = persist s1 (w\<lparr>heap := h3\<rparr>)
             in andThen (list s1 w1) (\<lambda>(snap, w2). Inr (snap, s1, w2)))))))))"

text \<open>
  \<^verbatim>\<open>it => it.id === id ? { ..., done: !it.done } : { ..., done: it.done }\<close>; strict
  equality is equality of values, by address for objects.
\<close>

definition toggle_item :: "jsval \<Rightarrow> heap \<Rightarrow> jsval \<Rightarrow> exn + jsval \<times> heap" where
  "toggle_item id' h it =
     andThen (get_prop h it ''id'') (\<lambda>i0.
       if i0 = id' then
         andThen (get_prop h it ''id'') (\<lambda>i.
         andThen (get_prop h it ''title'') (\<lambda>t.
         andThen (get_prop h it ''done'') (\<lambda>d.
           Inr (task_literal h i t (Bool (\<not> truthy d))))))
       else
         andThen (get_prop h it ''id'') (\<lambda>i.
         andThen (get_prop h it ''title'') (\<lambda>t.
         andThen (get_prop h it ''done'') (\<lambda>d.
           Inr (task_literal h i t d)))))"

definition toggle :: "store \<Rightarrow> jsval \<Rightarrow> world \<Rightarrow> exn + jsval \<times> store \<times> world" where
  "toggle s id' w =
     andThen (Array_map (toggle_item id') (heap w) (state s)) (\<lambda>(state1, h1).
       (let s1 = s\<lparr>state := state1\<rparr>;
            w1 = persist s1 (w\<lparr>heap := h1\<rparr>)
        in andThen (list s1 w1) (\<lambda>(snap, w2). Inr (snap, s1, w2))))"

text \<open>\<^verbatim>\<open>it => it.id !== id\<close>\<close>

definition remove :: "store \<Rightarrow> jsval \<Rightarrow> world \<Rightarrow> exn + jsval \<times> store \<times> world" where
  "remove s id' w =
     andThen (Array_filter (\<lambda>h it. andThen (get_prop h it ''id'') (\<lambda>i. Inr (Bool (i \<noteq> id'))))
                (heap w) (state s)) (\<lambda>(state1, h1).
       (let s1 = s\<lparr>state := state1\<rparr>;
            w1 = persist s1 (w\<lparr>heap := h1\<rparr>)
        in andThen (list s1 w1) (\<lambda>(snap, w2). Inr (snap, s1, w2))))"

section \<open>The collection a store holds\<close>

text \<open>
  Every record the store builds is an object literal with exactly the properties
  \<^verbatim>\<open>id\<close>, \<^verbatim>\<open>title\<close> and \<^verbatim>\<open>done\<close>. \<open>holds_tasks h v ts\<close> says that \<open>v\<close> is an array
  of such records whose contents, in order, are \<open>ts\<close>.
\<close>

definition fields :: "task \<Rightarrow> (string \<times> jsval) list" where
  "fields t = [(''id'', fst t), (''title'', fst (snd t)), (''done'', snd (snd t))]"

definition holds_task :: "heap \<Rightarrow> jsval \<Rightarrow> task \<Rightarrow> bool" where
  "holds_task h v t =
     (case v of Ref a \<Rightarrow> a < length h \<and> h ! a = Object (fields t) | _ \<Rightarrow> False)"

definition holds_tasks :: "heap \<Rightarrow> jsval \<Rightarrow> task list \<Rightarrow> bool" where
  "holds_tasks h v ts =
     (case elems h v of Inr xs \<Rightarrow> list_all2 (holds_task h) xs ts | Inl e \<Rightarrow> False)"

text \<open>What \<^verbatim>\<open>toggle(id)\<close> does to one task.\<close>

definition toggled :: "jsval \<Rightarrow> task \<Rightarrow> task" where
  "toggled id' t =
     (if fst t = id' then (fst t, fst (snd t), Bool (\<not> truthy (snd (snd t)))) else t)"

text \<open>A callback that turns the record of a task \<open>t\<close> into a fresh record of \<open>g t\<close>.\<close>

definition record_cb :: "(heap \<Rightarrow> jsval \<Rightarrow> exn + jsval \<times> heap) \<Rightarrow> (task \<Rightarrow> task) \<Rightarrow> bool" where
  "record_cb f g =
     (\<forall>h x t. holds_task h x t \<longrightarrow> f h x = Inr (Ref (length h), h @ [Object (fields (g t))]))"

section \<open>Reachable states of a store\<close>

text \<open>The common tail of the three mutators: \<^verbatim>\<open>persist(); return list();\<close>\<close>

definition finish :: "store \<Rightarrow> world \<Rightarrow> exn + jsval \<times> store \<times> world" where
  "finish s1 w0 = (let w1 = persist s1 w0 in andThen (list s1 w1) (\<lambda>(snap, w2). Inr (snap, s1, w2)))"

text \<open>The addresses among a list of values.\<close>

fun refs_of :: "jsval list \<Rightarrow> addr list" where
  "refs_of [] = []"
| "refs_of (Ref b # xs) = b # refs_of xs"
| "refs_of (x # xs) = refs_of xs"

text \<open>
  The objects only the closure can reach: the array in \<^verbatim>\<open>state\<close> and the records in
  it. No operation hands out a reference to them.
\<close>

definition owned :: "heap \<Rightarrow> jsval \<Rightarrow> addr set" where
  "owned h st =
     (case st of
        Ref a \<Rightarrow> insert a (case elems h st of Inr xs \<Rightarrow> set (refs_of xs) | Inl e \<Rightarrow> {})
      | _ \<Rightarrow> {})"

text \<open>
  A step of the rest of the program: it may change storage, the console and any object
  it can reach, which excludes the objects of the closure.
\<close>

definition untouched :: "store \<Rightarrow> world \<Rightarrow> world \<Rightarrow> bool" where
  "untouched s w w' =
     (\<forall>a \<in> owned (heap w) (state s). a < length (heap w') \<and> heap w' ! a = heap w ! a)"

text \<open>The state is an array of records whose \<^verbatim>\<open>done\<close> is a boolean.\<close>

definition store_inv :: "store \<Rightarrow> world \<Rightarrow> bool" where
  "store_inv s w =
     (\<exists>ts. holds_tasks (heap w) (state s) ts \<and> (\<forall>t \<in> set ts. \<exists>b. snd (snd t) = Bool b))"

text \<open>
  The states a store goes through: made by \<^verbatim>\<open>createStore\<close> in any world, then used
  through its four operations, with arbitrary steps of the caller in between.
\<close>

inductive reachable :: "store \<Rightarrow> world \<Rightarrow> bool" where
  by_create: "createStore key w0 = (s, w) \<Longrightarrow> reachable s w"
| by_add: "reachable s w \<Longrightarrow> add s task w = Inr (snap, s', w') \<Longrightarrow> reachable s' w'"
| by_toggle: "reachable s w \<Longrightarrow> toggle s id' w = Inr (snap, s', w') \<Longrightarrow> reachable s' w'"
| by_remove: "reachable s w \<Longrightarrow> remove s id' w = Inr (snap, s', w') \<Longrightarrow> reachable s' w'"
| by_list: "reachable s w \<Longrightarrow> list s w = Inr (snap, w') \<Longrightarrow> reachable s w'"
| by_caller: "reachable s w \<Longrightarrow> untouched s w w' \<Longrightarrow> reachable s w'"

text \<open>What \<^verbatim>\<open>list()\<close> shows: the contents of the snapshot it returns.\<close>

definition listed :: "store \<Rightarrow> world \<Rightarrow> task list option" where
  "listed s w = (case list s w of Inr (snap, w') \<Rightarrow> read_tasks (heap w') snap | Inl e \<Rightarrow> None)"

section \<open>Callers\<close>

text \<open>A freshly loaded page: the objects the caller has made, the stored items, a storage
  that can be read and written, and an empty console.\<close>

definition page :: "heap \<Rightarrow> (string \<Rightarrow> string option) \<Rightarrow> world" where
  "page h st = \<lparr>heap = h, items = st, readable = True, accepts = (\<lambda>k v. True), console = []\<rparr>"

text \<open>
  A caller that makes the calls in order and drops the snapshots; an exception ends it.
  \<open>session\<close> is a page load, which creates the store, followed by such calls.
\<close>

datatype call = Add jsval | Toggle jsval | Remove jsval

fun run :: "call list \<Rightarrow> store \<Rightarrow> world \<Rightarrow> exn + store \<times> world" where
  "run [] s w = Inr (s, w)"
| "run (c # cs) s w =
     andThen (case c of Add task \<Rightarrow> add s task w | Toggle i \<Rightarrow> toggle s i w
              | Remove i \<Rightarrow> remove s i w)
       (\<lambda>(snap, s', w'). run cs s' w')"

definition session :: "string \<Rightarrow> world \<Rightarrow> call list \<Rightarrow> exn + store \<times> world" where
  "session key w cs = (case createStore key w of (s, w1) \<Rightarrow> run cs s w1)"

section \<open>Example sessions\<close>

text \<open>Two task objects a caller has made, not yet done.\<close>

definition two_tasks :: heap where
  "two_tasks =
     [Object [(''id'', Str ''a''), (''title'', Str ''A''), (''done'', Bool False)],
      Object [(''id'', Str ''b''), (''title'', Str ''B''), (''done'', Bool False)]]"

text \<open>\<^verbatim>\<open>add(A); add(B)\<close> on an empty storage.\<close>

definition ex_two_added :: "exn + store \<times> world" where
  "ex_two_added = session ''k'' (page two_tasks Map.empty) [Add (Ref 0), Add (Ref 1)]"

text \<open>
  Storage holds \<^verbatim>\<open>[{"id":"a","done":1}]\<close>; the caller adds a task whose \<^verbatim>\<open>done\<close> is
  the string \<^verbatim>\<open>"yes"\<close> and toggles \<^verbatim>\<open>"a"\<close>.
\<close>

definition ex_coerced :: "exn + store \<times> world" where
  "ex_coerced =
     session ''k''
       (page [Object [(''id'', Str ''b''), (''title'', Str ''B''), (''done'', Str ''yes'')]]
          [''k'' \<mapsto> ''[{'' @ quote ''id'' @ '':'' @ quote ''a'' @ '','' @ quote ''done'' @ '':1}]''])
       [Add (Ref 0), Toggle (Str ''a'')]"

text \<open>Task A was added; afterwards something else emptied the storage.\<close>

definition ex_cleared :: "store \<times> world" where
  "ex_cleared =
     (case projr (session ''k'' (page two_tasks Map.empty) [Add (Ref 0)]) of
        (s, w) \<Rightarrow> (s, w\<lparr>items := Map.empty\<rparr>))"

text \<open>Two task objects with the same \<^verbatim>\<open>id\<close>, and a new store.\<close>

definition ex_same_id :: "exn + store \<times> world" where
  "ex_same_id =
     session ''k''
       (page [Object [(''id'', Str ''x''), (''title'', Str ''A''), (''done'', Bool False)],
              Object [(''id'', Str ''x''), (''title'', Str ''B''), (''done'', Bool True)]]
          Map.empty) []"

text \<open>A new store on a storage that refuses every write.\<close>

definition ex_refusing :: "store \<times> world" where
  "ex_refusing = createStore ''k'' ((page two_tasks Map.empty)\<lparr>accepts := (\<lambda>k v. False)\<rparr>)"

text \<open>A task object whose \<^verbatim>\<open>id\<close> is the object itself, and a new store.\<close>

definition ex_cyclic :: "store \<times> world" where
  "ex_cyclic =
     createStore ''k''
       (page [Object [(''id'', Ref 0), (''title'', Str ''A''), (''done'', Bool False)]] Map.empty)"

section \<open>What hydration keeps of a stored entry\<close>

text \<open>The JavaScript value of a JSON value that is not an array or an object.\<close>

fun prim :: "json \<Rightarrow> jsval option" where
  "prim JNull = Some Null"
| "prim (JBool b) = Some (Bool b)"
| "prim (JNum q) = Some (Number q)"
| "prim (JStr s) = Some (Str s)"
| "prim (JArr vs) = None"
| "prim (JObj ms) = None"

text \<open>
  The property \<open>k\<close> of an element of the stored array, as JSON: \<open>None\<close> when the element
  is not an object or has no such property; a repeated name takes its last value.
\<close>

definition stored_prop :: "json \<Rightarrow> string \<Rightarrow> json option" where
  "stored_prop item k = (case item of JObj ms \<Rightarrow> map_of (rev ms) k | _ \<Rightarrow> None)"

text \<open>
  \<open>as_stored j v\<close>: the value \<open>v\<close> is the JSON value \<open>j\<close> as it is, with no conversion:
  the same primitive, or a reference to the array or object built for \<open>j\<close>.
\<close>

definition as_stored :: "json \<Rightarrow> jsval \<Rightarrow> bool" where
  "as_stored j v = (case prim j of Some x \<Rightarrow> v = x | None \<Rightarrow> (\<exists>a. v = Ref a))"

definition kept_as_is :: "json option \<Rightarrow> jsval \<Rightarrow> bool" where
  "kept_as_is p v = (case p of None \<Rightarrow> v = Undefined | Some j \<Rightarrow> as_stored j v)"

text \<open>\<^verbatim>\<open>!!\<close> of a stored property.\<close>

fun stored_truthy :: "json option \<Rightarrow> bool" where
  "stored_truthy None = False"
| "stored_truthy (Some JNull) = False"
| "stored_truthy (Some (JBool b)) = b"
| "stored_truthy (Some (JNum q)) = (q \<noteq> 0)"
| "stored_truthy (Some (JStr s)) = (s \<noteq> [])"
| "stored_truthy (Some (JArr vs)) = True"
| "stored_truthy (Some (JObj ms)) = True"

text \<open>The record hydration makes of a stored entry.\<close>

definition hydrated_from :: "json \<Rightarrow> task \<Rightarrow> bool" where
  "hydrated_from item t =
     (kept_as_is (stored_prop item ''id'') (fst t)
      \<and> kept_as_is (stored_prop item ''title'') (fst (snd t))
      \<and> snd (snd t) = Bool (stored_truthy (stored_prop item ''done'')))"

section \<open>A caller that writes into a snapshot\<close>

text \<open>\<^verbatim>\<open>JSON.stringify(store.list())\<close>: a snapshot with everything reachable from it.\<close>

definition shown :: "store \<Rightarrow> world \<Rightarrow> string option" where
  "shown s w =
     (case list s w of
        Inr (snap, w') \<Rightarrow> (case JSON_stringify (heap w') snap of Inr t \<Rightarrow> t | Inl e \<Rightarrow> None)
      | Inl e \<Rightarrow> None)"

text \<open>
  The caller's assignment \<^verbatim>\<open>snap[n].id[k] = v\<close>, for a snapshot whose n-th record has an
  object as its \<^verbatim>\<open>id\<close>; the heap is left as it is otherwise.
\<close>

definition poke_id :: "heap \<Rightarrow> jsval \<Rightarrow> nat \<Rightarrow> string \<Rightarrow> jsval \<Rightarrow> heap" where
  "poke_id h snap n k v =
     (case elems h snap of
        Inl e \<Rightarrow> h
      | Inr xs \<Rightarrow>
          (if n < length xs
           then (case get_prop h (xs ! n) ''id'' of
                   Inr (Ref a) \<Rightarrow>
                     (if a < length h
                      then (case h ! a of Object ps \<Rightarrow> h[a := Object (set_prop k v ps)]
                            | Array ys \<Rightarrow> h)
                      else h)
                 | _ \<Rightarrow> h)
           else h))"

text \<open>Storage holds \<^verbatim>\<open>[{"id":{"n":1},"title":"t"}]\<close>: a task whose id is an object.\<close>

definition ex_nested :: "store \<times> world" where
  "ex_nested =
     createStore ''k''
       (page [] [''k'' \<mapsto> ''[{'' @ quote ''id'' @ '':{'' @ quote ''n'' @ '':1},'' @ quote ''title''
                          @ '':'' @ quote ''t'' @ ''}]''])"

text \<open>The snapshot \<^verbatim>\<open>list()\<close> returns in that store, and the world after the call.\<close>

definition ex_nested_list :: "jsval \<times> world" where
  "ex_nested_list = projr (list (fst ex_nested) (snd ex_nested))"

text \<open>The snapshot of the store holding A and B, and the world after the call.\<close>

definition ex_two_list :: "jsval \<times> world" where
  "ex_two_list = projr (list (fst (projr ex_two_added)) (snd (projr ex_two_added)))"

section \<open>Tasks of the Task shape and their stored text\<close>

text \<open>A task with a string \<^verbatim>\<open>id\<close>, a string \<^verbatim>\<open>title\<close> and a boolean \<^verbatim>\<open>done\<close>.\<close>

definition typed :: "string \<times> string \<times> bool \<Rightarrow> task" where
  "typed u = (Str (fst u), Str (fst (snd u)), Bool (snd (snd u)))"

text \<open>The text \<^verbatim>\<open>JSON.stringify\<close> writes for such tasks, and the syntax tree of that text.\<close>

definition task_text :: "string \<times> string \<times> bool \<Rightarrow> string" where
  "task_text u =
     ''{'' @ join [quote ''id'' @ '':'' @ quote (fst u),
                   quote ''title'' @ '':'' @ quote (fst (snd u)),
                   quote ''done'' @ '':'' @ (if snd (snd u) then ''true'' else ''false'')]
     @ ''}''"

definition tasks_text :: "(string \<times> string \<times> bool) list \<Rightarrow> string" where
  "tasks_text us = ''['' @ join (map task_text us) @ '']''"

definition task_json :: "string \<times> string \<times> bool \<Rightarrow> json" where
  "task_json u =
     JObj [(''id'', JStr (fst u)), (''title'', JStr (fst (snd u))), (''done'', JBool (snd (snd u)))]"

text \<open>A task object as a caller makes it: its three properties read as the task \<open>u\<close>.\<close>

definition task_object :: "heap \<Rightarrow> jsval \<Rightarrow> string \<times> string \<times> bool \<Rightarrow> bool" where
  "task_object h task u =
     (get_prop h task ''id'' = Inr (Str (fst u))
      \<and> get_prop h task ''title'' = Inr (Str (fst (snd u)))
      \<and> get_prop h task ''done'' = Inr (Bool (snd (snd u))))"

text \<open>
  A first store on an empty storage, the same store after \<^verbatim>\<open>add(A); add(B)\<close>, and a second
  store made afterwards with the same key.
\<close>

definition ex_first :: "store \<times> world" where
  "ex_first = createStore ''k'' (page two_tasks Map.empty)"

definition ex_first_added :: "store \<times> world" where
  "ex_first_added = projr (run (map Add [Ref 0, Ref 1]) (fst ex_first) (snd ex_first))"

definition ex_second :: "store \<times> world" where
  "ex_second = createStore ''k'' (snd ex_first_added)"

section \<open>Basic facts about the heap\<close>

lemma andThen_simps [simp]:
  "andThen (Inl e) f = Inl e"
  "andThen (Inr x) f = f x"
  by (simp_all add: andThen_def)

lemma get_prop_ext: "get_prop h v k = Inr x \<Longrightarrow> get_prop (h @ h') v k = Inr x"
  by (cases v) (auto simp: nth_append split: if_splits)

lemma get_prop_total: "get_prop h v k = Inr x \<Longrightarrow> \<exists>y. get_prop h v k' = Inr y"
  by (cases v) (auto split: if_splits obj.splits)

lemma elems_new [simp]: "elems (h @ [Array ys]) (Ref (length h)) = Inr ys"
  by (simp add: elems_def)

lemma elems_ext: "elems h v = Inr xs \<Longrightarrow> elems (h @ h') v = Inr xs"
  by (auto simp: elems_def nth_append split: jsval.splits if_splits obj.splits)

lemma read_task_Some:
  "read_task h v = Some (i, t, d) \<Longrightarrow>
     get_prop h v ''id'' = Inr i \<and> get_prop h v ''title'' = Inr t \<and> get_prop h v ''done'' = Inr d"
  by (auto simp: read_task_def split: jsval.splits if_splits obj.splits sum.splits)

lemma read_task_ext: "read_task h v = Some t \<Longrightarrow> read_task (h @ h') v = Some t"
  by (cases v) (auto simp: read_task_def nth_append split: if_splits obj.splits)

lemma read_all_ext: "read_all h xs = Some ts \<Longrightarrow> read_all (h @ h') xs = Some ts"
  by (induction xs arbitrary: ts) (auto simp: read_task_ext split: option.splits)

section \<open>Arrays of records\<close>

lemma holds_task_get:
  assumes "holds_task h v t"
  shows "get_prop h v ''id'' = Inr (fst t)" "get_prop h v ''title'' = Inr (fst (snd t))"
    "get_prop h v ''done'' = Inr (snd (snd t))"
  using assms by (auto simp: holds_task_def fields_def split: jsval.splits)

lemma holds_task_read: "holds_task h v t \<Longrightarrow> read_task h v = Some t"
  by (auto simp: holds_task_def read_task_def fields_def split: jsval.splits)

lemma holds_all_read: "list_all2 (holds_task h) xs ts \<Longrightarrow> read_all h xs = Some ts"
  by (induction xs ts rule: list_all2_induct) (auto simp: holds_task_read)

lemma holds_tasks_read: "holds_tasks h v ts \<Longrightarrow> read_tasks h v = Some ts"
  by (auto simp: holds_tasks_def read_tasks_def holds_all_read split: sum.splits)

lemma holds_task_ext: "holds_task h v t \<Longrightarrow> holds_task (h @ h') v t"
  by (auto simp: holds_task_def nth_append split: jsval.splits)

lemma holds_all_ext: "list_all2 (holds_task h) xs ts \<Longrightarrow> list_all2 (holds_task (h @ h')) xs ts"
  by (erule list_all2_mono) (rule holds_task_ext)

lemma holds_tasks_ext: "holds_tasks h v ts \<Longrightarrow> holds_tasks (h @ h') v ts"
  by (auto simp: holds_tasks_def elems_ext holds_all_ext split: sum.splits)

lemma task_literal_fields: "task_literal h i t d = (Ref (length h), h @ [Object (fields (i, t, d))])"
  by (simp add: task_literal_def alloc_def fields_def)

lemma record_cbD:
  "record_cb f g \<Longrightarrow> holds_task h x t \<Longrightarrow> f h x = Inr (Ref (length h), h @ [Object (fields (g t))])"
  unfolding record_cb_def by (erule allE[of _ h], erule allE[of _ x], erule allE[of _ t]) simp

lemma map_cb_records:
  assumes f: "record_cb f g"
  shows "list_all2 (holds_task h) xs ts \<Longrightarrow>
    map_cb f h xs = Inr (map Ref [length h ..< length h + length ts],
                         h @ map (\<lambda>t. Object (fields (g t))) ts)"
proof (induction xs arbitrary: ts h)
  case Nil
  then show ?case by simp
next
  case (Cons x xs)
  from Cons.prems obtain t ts' where ts: "ts = t # ts'" and x: "holds_task h x t"
    and rest: "list_all2 (holds_task h) xs ts'"
    by (auto simp: list_all2_Cons1)
  have fx: "f h x = Inr (Ref (length h), h @ [Object (fields (g t))])"
    using f x by (rule record_cbD)
  have "list_all2 (holds_task (h @ [Object (fields (g t))])) xs ts'"
    using rest by (rule holds_all_ext)
  from Cons.IH[OF this]
  have ih: "map_cb f (h @ [Object (fields (g t))]) xs =
      Inr (map Ref [Suc (length h) ..< Suc (length h) + length ts'],
           (h @ [Object (fields (g t))]) @ map (\<lambda>t. Object (fields (g t))) ts')"
    by simp
  have up: "[length h ..< length h + length ts] = length h # [Suc (length h) ..< Suc (length h) + length ts']"
    by (simp add: ts upt_conv_Cons del: upt_Suc)
  show ?case
    unfolding up by (simp add: fx ih ts)
qed

lemma fresh_records_hold:
  "list_all2 (holds_task (h @ map (\<lambda>t. Object (fields t)) ts @ h'))
     (map Ref [length h ..< length h + length ts]) ts"
  by (auto simp: list_all2_conv_all_nth holds_task_def nth_append)

lemma copy_item_cb: "record_cb copy_item (\<lambda>t. t)"
  by (simp add: record_cb_def copy_item_def holds_task_get task_literal_fields)

lemma toggle_item_cb: "record_cb (toggle_item id') (toggled id')"
  by (simp add: record_cb_def toggle_item_def holds_task_get task_literal_fields toggled_def)

lemma Array_map_records:
  assumes f: "record_cb f g" and ht: "holds_tasks h v ts"
  shows "\<exists>h'. Array_map f h v = Inr (Ref (length h + length ts), h @ h')
            \<and> holds_tasks (h @ h') (Ref (length h + length ts)) (map g ts)
            \<and> length h' = Suc (length ts)"
proof -
  from ht obtain xs where xs: "elems h v = Inr xs" and all: "list_all2 (holds_task h) xs ts"
    by (auto simp: holds_tasks_def split: sum.splits)
  let ?recs = "map (\<lambda>t. Object (fields (g t))) ts"
  let ?refs = "map Ref [length h ..< length h + length ts]"
  have m: "map_cb f h xs = Inr (?refs, h @ ?recs)"
    using f all by (rule map_cb_records)
  have am: "Array_map f h v = Inr (Ref (length h + length ts), h @ (?recs @ [Array ?refs]))"
    by (simp add: Array_map_def xs m alloc_def)
  have el: "elems (h @ (?recs @ [Array ?refs])) (Ref (length h + length ts)) = Inr ?refs"
    by (simp add: elems_def nth_append)
  have "list_all2 (holds_task (h @ map (\<lambda>t. Object (fields t)) (map g ts) @ [Array ?refs]))
     (map Ref [length h ..< length h + length (map g ts)]) (map g ts)"
    by (rule fresh_records_hold)
  then have hold: "list_all2 (holds_task (h @ (?recs @ [Array ?refs]))) ?refs (map g ts)"
    by (simp add: comp_def)
  show ?thesis
    using am el hold by (intro exI[of _ "?recs @ [Array ?refs]"]) (simp add: holds_tasks_def)
qed


lemma heap_persist [simp]: "heap (persist s w) = heap w"
  by (cases "JSON_stringify (heap w) (state s)") (auto simp: persist_def setItem_def Let_def)

lemma list_spec:
  assumes "holds_tasks (heap w) (state s) ts"
  shows "\<exists>h'. list s w = Inr (Ref (length (heap w) + length ts), w\<lparr>heap := heap w @ h'\<rparr>)
            \<and> holds_tasks (heap w @ h') (Ref (length (heap w) + length ts)) ts
            \<and> length h' = Suc (length ts)"
proof -
  from Array_map_records[OF copy_item_cb assms] obtain h' where
    "Array_map copy_item (heap w) (state s) = Inr (Ref (length (heap w) + length ts), heap w @ h')"
    "holds_tasks (heap w @ h') (Ref (length (heap w) + length ts)) ts" "length h' = Suc (length ts)"
    by auto
  then show ?thesis by (auto simp: list_def)
qed

lemma toggle_spec:
  assumes "holds_tasks (heap w) (state s) ts"
  shows "\<exists>snap st hm h'. toggle s id' w
            = Inr (snap, s\<lparr>state := st\<rparr>, (persist (s\<lparr>state := st\<rparr>) (w\<lparr>heap := heap w @ hm\<rparr>))\<lparr>heap := heap w @ hm @ h'\<rparr>)
          \<and> holds_tasks (heap w @ hm) st (map (toggled id') ts)
          \<and> holds_tasks (heap w @ hm @ h') st (map (toggled id') ts)
          \<and> holds_tasks (heap w @ hm @ h') snap (map (toggled id') ts)"
proof -
  from Array_map_records[OF toggle_item_cb assms, of id'] obtain hm where
    m: "Array_map (toggle_item id') (heap w) (state s) = Inr (Ref (length (heap w) + length ts), heap w @ hm)"
    and hm: "holds_tasks (heap w @ hm) (Ref (length (heap w) + length ts)) (map (toggled id') ts)"
    by auto
  let ?st = "Ref (length (heap w) + length ts)"
  let ?s1 = "s\<lparr>state := ?st\<rparr>"
  let ?w1 = "persist ?s1 (w\<lparr>heap := heap w @ hm\<rparr>)"
  have "holds_tasks (heap ?w1) (state ?s1) (map (toggled id') ts)"
    using hm by simp
  from list_spec[OF this] obtain h' where
    l: "list ?s1 ?w1 = Inr (Ref (length (heap ?w1) + length (map (toggled id') ts)), ?w1\<lparr>heap := heap ?w1 @ h'\<rparr>)"
    and hs: "holds_tasks (heap ?w1 @ h') (Ref (length (heap ?w1) + length (map (toggled id') ts))) (map (toggled id') ts)"
    by blast
  have t: "toggle s id' w = Inr (Ref (length (heap ?w1) + length (map (toggled id') ts)), ?s1, ?w1\<lparr>heap := heap w @ hm @ h'\<rparr>)"
    unfolding toggle_def using m l by (simp add: Let_def)
  have hm': "holds_tasks (heap w @ hm @ h') ?st (map (toggled id') ts)"
    using holds_tasks_ext[OF hm, of h'] by simp
  show ?thesis
    using t hm hm' hs by (intro exI conjI) (assumption | simp)+
qed

section \<open>The operations on an array of records\<close>

lemma list_spec2:
  assumes "holds_tasks (heap w) (state s) ts"
  shows "\<exists>h'. list s w = Inr (Ref (length (heap w) + length ts), w\<lparr>heap := heap w @ h'\<rparr>)
            \<and> holds_tasks (heap w @ h') (Ref (length (heap w) + length ts)) ts
            \<and> holds_tasks (heap w @ h') (state s) ts"
  using list_spec[OF assms] holds_tasks_ext[OF assms] by blast

lemma finish_spec:
  assumes "holds_tasks (heap w) (state s) ts"
  shows "\<exists>snap h'. finish s w = Inr (snap, s, (persist s w)\<lparr>heap := heap w @ h'\<rparr>)
            \<and> holds_tasks (heap w @ h') snap ts
            \<and> holds_tasks (heap w @ h') (state s) ts"
proof -
  have "holds_tasks (heap (persist s w)) (state s) ts"
    using assms by simp
  from list_spec2[OF this] show ?thesis
    by (auto simp: finish_def Let_def)
qed

lemma toggle_finish:
  "toggle s id' w = andThen (Array_map (toggle_item id') (heap w) (state s))
      (\<lambda>(state1, h1). finish (s\<lparr>state := state1\<rparr>) (w\<lparr>heap := h1\<rparr>))"
  by (simp add: toggle_def finish_def Let_def)

lemma remove_finish:
  "remove s id' w = andThen (Array_filter (\<lambda>h it. andThen (get_prop h it ''id'') (\<lambda>i. Inr (Bool (i \<noteq> id'))))
                (heap w) (state s))
      (\<lambda>(state1, h1). finish (s\<lparr>state := state1\<rparr>) (w\<lparr>heap := h1\<rparr>))"
  by (simp add: remove_def finish_def Let_def)

lemma filter_cb_ne:
  "list_all2 (holds_task h) xs ts \<Longrightarrow>
   \<exists>ys. filter_cb (\<lambda>h it. andThen (get_prop h it ''id'') (\<lambda>i. Inr (Bool (i \<noteq> id')))) h xs = Inr ys
       \<and> list_all2 (holds_task h) ys (filter (\<lambda>t. fst t \<noteq> id') ts)"
proof (induction xs arbitrary: ts)
  case Nil
  then show ?case by simp
next
  case (Cons x xs)
  from Cons.prems obtain t ts' where ts: "ts = t # ts'" and x: "holds_task h x t"
    and rest: "list_all2 (holds_task h) xs ts'"
    by (auto simp: list_all2_Cons1)
  from Cons.IH[OF rest] obtain ys where
    ys: "filter_cb (\<lambda>h it. andThen (get_prop h it ''id'') (\<lambda>i. Inr (Bool (i \<noteq> id')))) h xs = Inr ys"
    and hy: "list_all2 (holds_task h) ys (filter (\<lambda>t. fst t \<noteq> id') ts')" by blast
  show ?case
    using ys hy x by (simp add: ts holds_task_get)
qed

lemma remove_spec:
  assumes "holds_tasks (heap w) (state s) ts"
  shows "\<exists>snap st hm h'. remove s id' w
            = Inr (snap, s\<lparr>state := st\<rparr>,
                   (persist (s\<lparr>state := st\<rparr>) (w\<lparr>heap := heap w @ hm\<rparr>))\<lparr>heap := heap w @ hm @ h'\<rparr>)
          \<and> holds_tasks (heap w @ hm) st (filter (\<lambda>t. fst t \<noteq> id') ts)
          \<and> holds_tasks (heap w @ hm @ h') st (filter (\<lambda>t. fst t \<noteq> id') ts)
          \<and> holds_tasks (heap w @ hm @ h') snap (filter (\<lambda>t. fst t \<noteq> id') ts)"
proof -
  from assms obtain xs where xs: "elems (heap w) (state s) = Inr xs"
    and all: "list_all2 (holds_task (heap w)) xs ts"
    by (auto simp: holds_tasks_def split: sum.splits)
  from filter_cb_ne[OF all, of id'] obtain ys where
    ys: "filter_cb (\<lambda>h it. andThen (get_prop h it ''id'') (\<lambda>i. Inr (Bool (i \<noteq> id')))) (heap w) xs = Inr ys"
    and hy: "list_all2 (holds_task (heap w)) ys (filter (\<lambda>t. fst t \<noteq> id') ts)" by blast
  let ?st = "Ref (length (heap w))"
  let ?hm = "[Array ys]"
  have af: "Array_filter (\<lambda>h it. andThen (get_prop h it ''id'') (\<lambda>i. Inr (Bool (i \<noteq> id')))) (heap w) (state s)
      = Inr (?st, heap w @ ?hm)"
    by (simp add: Array_filter_def xs ys alloc_def)
  have hs: "holds_tasks (heap w @ ?hm) ?st (filter (\<lambda>t. fst t \<noteq> id') ts)"
    using holds_all_ext[OF hy, of ?hm] by (simp add: holds_tasks_def)
  then have "holds_tasks (heap (w\<lparr>heap := heap w @ ?hm\<rparr>)) (state (s\<lparr>state := ?st\<rparr>)) (filter (\<lambda>t. fst t \<noteq> id') ts)"
    by simp
  from finish_spec[OF this] obtain snap h' where
    f: "finish (s\<lparr>state := ?st\<rparr>) (w\<lparr>heap := heap w @ ?hm\<rparr>)
        = Inr (snap, s\<lparr>state := ?st\<rparr>, (persist (s\<lparr>state := ?st\<rparr>) (w\<lparr>heap := heap w @ ?hm\<rparr>))\<lparr>heap := heap w @ ?hm @ h'\<rparr>)"
    and h1: "holds_tasks (heap w @ ?hm @ h') snap (filter (\<lambda>t. fst t \<noteq> id') ts)"
    and h2: "holds_tasks (heap w @ ?hm @ h') ?st (filter (\<lambda>t. fst t \<noteq> id') ts)"
    by auto
  have "remove s id' w = Inr (snap, s\<lparr>state := ?st\<rparr>, (persist (s\<lparr>state := ?st\<rparr>) (w\<lparr>heap := heap w @ ?hm\<rparr>))\<lparr>heap := heap w @ ?hm @ h'\<rparr>)"
    by (simp add: remove_finish af f)
  then show ?thesis
    using hs h1 h2 by blast
qed

lemma add_finish:
  "add s task w =
     andThen (get_prop (heap w) task ''id'') (\<lambda>i.
     andThen (get_prop (heap w) task ''title'') (\<lambda>t.
     andThen (get_prop (heap w) task ''done'') (\<lambda>d.
       (case task_literal (heap w) i t (Bool (truthy d)) of (r, h1) \<Rightarrow>
       (case alloc h1 (Array [r]) of (arg, h2) \<Rightarrow>
          andThen (Array_concat h2 (state s) arg) (\<lambda>(state1, h3).
            finish (s\<lparr>state := state1\<rparr>) (w\<lparr>heap := h3\<rparr>)))))))"
  by (simp add: add_def finish_def Let_def)

lemma add_spec:
  assumes ht: "holds_tasks (heap w) (state s) ts"
    and gi: "get_prop (heap w) task ''id'' = Inr i"
    and gt: "get_prop (heap w) task ''title'' = Inr t"
    and gd: "get_prop (heap w) task ''done'' = Inr d"
  shows "\<exists>snap st hm h'. add s task w
            = Inr (snap, s\<lparr>state := st\<rparr>,
                   (persist (s\<lparr>state := st\<rparr>) (w\<lparr>heap := heap w @ hm\<rparr>))\<lparr>heap := heap w @ hm @ h'\<rparr>)
          \<and> holds_tasks (heap w @ hm) st (ts @ [(i, t, Bool (truthy d))])
          \<and> holds_tasks (heap w @ hm @ h') st (ts @ [(i, t, Bool (truthy d))])
          \<and> holds_tasks (heap w @ hm @ h') snap (ts @ [(i, t, Bool (truthy d))])"
proof -
  let ?new = "(i, t, Bool (truthy d))"
  let ?h = "heap w"
  from ht obtain xs where xs: "elems ?h (state s) = Inr xs"
    and all: "list_all2 (holds_task ?h) xs ts"
    by (auto simp: holds_tasks_def split: sum.splits)
  let ?r = "Ref (length ?h)"
  let ?ys = "xs @ [?r]"
  let ?hm = "[Object (fields ?new), Array [?r], Array ?ys]"
  let ?st = "Ref (length ?h + 2)"
  have e1: "elems (?h @ [Object (fields ?new), Array [?r]]) (state s) = Inr xs"
    using xs by (rule elems_ext)
  have e2: "elems (?h @ [Object (fields ?new), Array [?r]]) (Ref (Suc (length ?h))) = Inr [?r]"
    by (simp add: elems_def nth_append)
  have ac: "Array_concat (?h @ [Object (fields ?new), Array [?r]]) (state s) (Ref (Suc (length ?h)))
      = Inr (?st, ?h @ ?hm)"
    by (simp add: Array_concat_def e1 e2 alloc_def)
  have el: "elems (?h @ ?hm) ?st = Inr ?ys"
    by (simp add: elems_def nth_append)
  have a1: "list_all2 (holds_task (?h @ ?hm)) xs ts"
    using all by (rule holds_all_ext)
  have a2: "holds_task (?h @ ?hm) ?r ?new"
    by (simp add: holds_task_def nth_append)
  have hs: "holds_tasks (?h @ ?hm) ?st (ts @ [?new])"
    using a1 a2 el by (simp add: holds_tasks_def list_all2_appendI)
  then have "holds_tasks (heap (w\<lparr>heap := ?h @ ?hm\<rparr>)) (state (s\<lparr>state := ?st\<rparr>)) (ts @ [?new])"
    by simp
  from finish_spec[OF this] obtain snap h' where
    f: "finish (s\<lparr>state := ?st\<rparr>) (w\<lparr>heap := ?h @ ?hm\<rparr>)
        = Inr (snap, s\<lparr>state := ?st\<rparr>, (persist (s\<lparr>state := ?st\<rparr>) (w\<lparr>heap := ?h @ ?hm\<rparr>))\<lparr>heap := ?h @ ?hm @ h'\<rparr>)"
    and h1: "holds_tasks (?h @ ?hm @ h') snap (ts @ [?new])"
    and h2: "holds_tasks (?h @ ?hm @ h') ?st (ts @ [?new])"
    by auto
  have "add s task w = Inr (snap, s\<lparr>state := ?st\<rparr>, (persist (s\<lparr>state := ?st\<rparr>) (w\<lparr>heap := ?h @ ?hm\<rparr>))\<lparr>heap := ?h @ ?hm @ h'\<rparr>)"
    using ac f by (simp add: add_finish gi gt gd task_literal_fields alloc_def)
  then show ?thesis
    using hs h1 h2 by blast
qed

lemma set_refs_of: "set (refs_of xs) = {b. Ref b \<in> set xs}"
  by (induction xs rule: refs_of.induct) auto

lemma holds_tasks_frame:
  assumes ht: "holds_tasks h st ts"
    and fr: "\<forall>a \<in> owned h st. a < length h' \<and> h' ! a = h ! a"
  shows "holds_tasks h' st ts"
proof -
  from ht obtain a xs where st: "st = Ref a" and a: "a < length h" and ha: "h ! a = Array xs"
    and all: "list_all2 (holds_task h) xs ts"
    by (auto simp: holds_tasks_def elems_def split: sum.splits jsval.splits if_splits obj.splits)
  have el: "elems h st = Inr xs"
    using st a ha by (simp add: elems_def)
  have pa: "a \<in> owned h st"
    by (simp add: owned_def st)
  then have el': "elems h' st = Inr xs"
    using fr ha st by (auto simp: elems_def)
  have "list_all2 (holds_task h') xs ts"
    using all
  proof (rule list.rel_mono_strong)
    fix x t
    assume x: "x \<in> set xs" and hx: "holds_task h x t"
    from hx obtain b where b: "x = Ref b" "b < length h" "h ! b = Object (fields t)"
      by (auto simp: holds_task_def split: jsval.splits)
    have "b \<in> owned h st"
      using x b(1) by (simp add: owned_def st el[unfolded st] set_refs_of)
    with fr have "b < length h'" "h' ! b = h ! b" by auto
    then show "holds_task h' x t"
      using b by (simp add: holds_task_def)
  qed
  then show ?thesis
    by (simp add: holds_tasks_def el')
qed

lemma hydrate_item_result:
  assumes "hydrate_item h x = Inr (y, h1)"
  shows "\<exists>i t d. get_prop h x ''id'' = Inr i \<and> get_prop h x ''title'' = Inr t
           \<and> get_prop h x ''done'' = Inr d
           \<and> y = Ref (length h) \<and> h1 = h @ [Object (fields (i, t, Bool (truthy d)))]"
proof -
  from assms obtain i where i: "get_prop h x ''id'' = Inr i"
    by (cases "get_prop h x ''id''") (auto simp: hydrate_item_def)
  from assms i obtain t where t: "get_prop h x ''title'' = Inr t"
    by (cases "get_prop h x ''title''") (auto simp: hydrate_item_def)
  from assms i t obtain d where d: "get_prop h x ''done'' = Inr d"
    by (cases "get_prop h x ''done''") (auto simp: hydrate_item_def)
  show ?thesis
    using assms i t d by (auto simp: hydrate_item_def task_literal_fields)
qed

lemma map_cb_hydrate:
  "map_cb hydrate_item h xs = Inr (ys, h') \<Longrightarrow>
     \<exists>ts e. list_all2 (holds_task h') ys ts \<and> (\<forall>t \<in> set ts. \<exists>b. snd (snd t) = Bool b) \<and> h' = h @ e"
proof (induction xs arbitrary: h ys)
  case Nil
  then show ?case by simp
next
  case (Cons x xs)
  from Cons.prems obtain y h1 where y: "hydrate_item h x = Inr (y, h1)"
    by (cases "hydrate_item h x") auto
  from Cons.prems y obtain ys' where ys': "map_cb hydrate_item h1 xs = Inr (ys', h')"
    and ys: "ys = y # ys'"
    by (cases "map_cb hydrate_item h1 xs") auto
  from hydrate_item_result[OF y] obtain i t d where
    yr: "y = Ref (length h)" and h1: "h1 = h @ [Object (fields (i, t, Bool (truthy d)))]"
    by blast
  from Cons.IH[OF ys'] obtain ts e where
    all: "list_all2 (holds_task h') ys' ts" and bs: "\<forall>t \<in> set ts. \<exists>b. snd (snd t) = Bool b"
    and h': "h' = h1 @ e" by blast
  have "holds_task h' y (i, t, Bool (truthy d))"
    by (simp add: holds_task_def yr h' h1 nth_append)
  then show ?case
    using all bs h' h1 ys
    by (intro exI[of _ "(i, t, Bool (truthy d)) # ts"] exI[of _ "Object (fields (i, t, Bool (truthy d))) # e"]) simp
qed

lemma materialize_ext:
  "\<exists>e. snd (materialize j h) = h @ e"
  "\<exists>e. snd (materialize_list js h) = h @ e"
  "\<exists>e. snd (materialize_props ms h) = h @ e"
proof (induction j h and js h and ms h rule: materialize_materialize_list_materialize_props.induct)
  case (5 vs h)
  then show ?case by (auto simp: alloc_def split: prod.splits)
next
  case (6 ms h)
  then show ?case by (auto simp: alloc_def split: prod.splits)
next
  case (8 v vs h)
  then show ?case by (auto split: prod.splits)
next
  case (10 m ms h)
  then show ?case by (auto split: prod.splits)
qed auto

section \<open>summarize counts and rounds\<close>

lemma filter_cb_done:
  "read_all h xs = Some ts \<Longrightarrow>
   \<exists>ys. filter_cb (\<lambda>h t. get_prop h t ''done'') h xs = Inr ys
      \<and> length ys = length (filter (\<lambda>x. truthy (snd (snd x))) ts)"
proof (induction xs arbitrary: ts)
  case Nil
  then show ?case by simp
next
  case (Cons x xs)
  from Cons.prems obtain t ts' where t: "read_task h x = Some t"
    and ts': "read_all h xs = Some ts'" and ts: "ts = t # ts'"
    by (auto split: option.splits)
  obtain i ti d where [simp]: "t = (i, ti, d)" by (cases t)
  from read_task_Some[OF t[simplified]] have gd: "get_prop h x ''done'' = Inr d" by simp
  from Cons.IH[OF ts'] obtain ys where
    "filter_cb (\<lambda>h t. get_prop h t ''done'') h xs = Inr ys"
    "length ys = length (filter (\<lambda>x. truthy (snd (snd x))) ts')" by blast
  then show ?case using gd ts by simp
qed

lemma filter_cb_not_done:
  "read_all h xs = Some ts \<Longrightarrow>
   \<exists>ys. filter_cb (\<lambda>h t. andThen (get_prop h t ''done'') (\<lambda>d. Inr (Bool (\<not> truthy d)))) h xs = Inr ys
      \<and> length ys = length (filter (\<lambda>x. \<not> truthy (snd (snd x))) ts)"
proof (induction xs arbitrary: ts)
  case Nil
  then show ?case by simp
next
  case (Cons x xs)
  from Cons.prems obtain t ts' where t: "read_task h x = Some t"
    and ts': "read_all h xs = Some ts'" and ts: "ts = t # ts'"
    by (auto split: option.splits)
  obtain i ti d where [simp]: "t = (i, ti, d)" by (cases t)
  from read_task_Some[OF t[simplified]] have gd: "get_prop h x ''done'' = Inr d" by simp
  from Cons.IH[OF ts'] obtain ys where
    "filter_cb (\<lambda>h t. andThen (get_prop h t ''done'') (\<lambda>d. Inr (Bool (\<not> truthy d)))) h xs = Inr ys"
    "length ys = length (filter (\<lambda>x. \<not> truthy (snd (snd x))) ts')" by blast
  then show ?case using gd ts by simp
qed

text \<open>On any array of objects the two counts follow the truthiness of \<^verbatim>\<open>done\<close>.\<close>

lemma summarize_truthy:
  assumes "read_tasks h tasks = Some ts"
  shows "summarize h tasks =
     Inr \<lparr>s_active = length (filter (\<lambda>x. \<not> truthy (snd (snd x))) ts),
          s_done = length (filter (\<lambda>x. truthy (snd (snd x))) ts),
          s_pct = (if fadd (of_nat (length (filter (\<lambda>x. \<not> truthy (snd (snd x))) ts)))
                        (of_nat (length (filter (\<lambda>x. truthy (snd (snd x))) ts))) = 0 then 0
                   else fdiv (Math_round (fmul (fdiv (of_nat (length (filter (\<lambda>x. truthy (snd (snd x))) ts)))
                          (fadd (of_nat (length (filter (\<lambda>x. \<not> truthy (snd (snd x))) ts)))
                                (of_nat (length (filter (\<lambda>x. truthy (snd (snd x))) ts))))) 1000)) 10)\<rparr>"
proof -
  from assms obtain xs where xs: "elems h tasks = Inr xs" and ra: "read_all h xs = Some ts"
    by (auto simp: read_tasks_def split: sum.splits)
  from filter_cb_not_done[OF ra] obtain acts where
    a: "filter_cb (\<lambda>h t. andThen (get_prop h t ''done'') (\<lambda>d. Inr (Bool (\<not> truthy d)))) h xs = Inr acts"
    and la: "length acts = length (filter (\<lambda>x. \<not> truthy (snd (snd x))) ts)" by blast
  define h1 where "h1 = h @ [Array acts]"
  have xs1: "elems h1 tasks = Inr xs"
    unfolding h1_def using xs by (rule elems_ext)
  have ra': "read_all h1 xs = Some ts"
    unfolding h1_def using ra by (rule read_all_ext)
  from filter_cb_done[OF ra'] obtain dons where
    d: "filter_cb (\<lambda>h t. get_prop h t ''done'') h1 xs = Inr dons"
    and ld: "length dons = length (filter (\<lambda>x. truthy (snd (snd x))) ts)" by blast
  have s1: "Array_filter (\<lambda>h t. andThen (get_prop h t ''done'') (\<lambda>d. Inr (Bool (\<not> truthy d)))) h tasks
      = Inr (Ref (length h), h1)"
    by (simp add: Array_filter_def xs a alloc_def h1_def)
  have s2: "elems h1 (Ref (length h)) = Inr acts"
    by (simp add: h1_def)
  have s3: "Array_filter (\<lambda>h t. get_prop h t ''done'') h1 tasks = Inr (Ref (length h1), h1 @ [Array dons])"
    by (simp add: Array_filter_def xs1 d alloc_def)
  have s4: "elems (h1 @ [Array dons]) (Ref (length h1)) = Inr dons"
    by simp
  have "summarize h tasks =
     Inr \<lparr>s_active = length acts, s_done = length dons,
          s_pct = (if fadd (of_nat (length acts)) (of_nat (length dons)) = 0 then 0
                   else fdiv (Math_round (fmul (fdiv (of_nat (length dons))
                          (fadd (of_nat (length acts)) (of_nat (length dons)))) 1000)) 10)\<rparr>"
    by (simp add: summarize_def s1 s2 s3 s4 Let_def del: elems_new)
  then show ?thesis
    unfolding la ld .
qed

subsection \<open>Rounding to a double\<close>

lemma pow2_powi: "pow2 e = 2 powi e"
  by (simp add: pow2_def power_int_def inverse_eq_divide power_one_over)

lemma pow2_pos: "0 < pow2 e"
  by (simp add: pow2_powi)

lemma pow2_add: "pow2 (a + b) = pow2 a * pow2 b"
  by (simp add: pow2_powi power_int_add)

lemma pow2_mono: "a \<le> b \<Longrightarrow> pow2 a \<le> pow2 b"
  by (simp add: pow2_powi power_int_increasing)

lemma pow2_less_D: "pow2 a < pow2 b \<Longrightarrow> a < b"
  using pow2_mono[of b a] by (cases "a < b") auto

lemma pow2_nat: "0 \<le> e \<Longrightarrow> pow2 e = 2 ^ nat e"
  by (simp add: pow2_def)

lemma bits_bounds:
  "0 < n \<Longrightarrow> 0 < bits n \<and> 2 ^ nat (bits n - 1) \<le> n \<and> n < 2 ^ nat (bits n)"
proof (induction n rule: bits.induct)
  case (1 n)
  show ?case
  proof (cases "n = 1")
    case True
    have "bits 1 = 1" by (simp add: bits.simps)
    with True show ?thesis by simp
  next
    case False
    with "1.prems" have m: "0 < n div 2" by simp
    from "1.prems" have "\<not> n \<le> 0" by simp
    from "1.IH"[OF this m] have b: "0 < bits (n div 2)"
      and lo: "2 ^ nat (bits (n div 2) - 1) \<le> n div 2"
      and hi: "n div 2 < 2 ^ nat (bits (n div 2))" by auto
    have bn: "bits n = bits (n div 2) + 1"
      using "1.prems" by (subst bits.simps) simp
    have e1: "nat (bits n - 1) = Suc (nat (bits (n div 2) - 1))"
      using b by (simp add: bn nat_diff_distrib)
    have e2: "nat (bits n) = Suc (nat (bits (n div 2)))"
      using b by (simp add: bn nat_add_distrib)
    have "2 * 2 ^ nat (bits (n div 2) - 1) \<le> n"
      using lo by linarith
    moreover have "n < 2 * 2 ^ nat (bits (n div 2))"
      using hi by linarith
    moreover have "0 < bits n"
      using b by (simp add: bn)
    ultimately show ?thesis
      unfolding e1 e2 by simp
  qed
qed

lemma bits_pow2:
  assumes "0 < n"
  shows "pow2 (bits n - 1) \<le> of_int n" and "of_int n < pow2 (bits n)"
proof -
  from bits_bounds[OF assms] have b: "0 < bits n" and lo: "2 ^ nat (bits n - 1) \<le> n"
    and hi: "n < 2 ^ nat (bits n)" by auto
  have "pow2 (bits n - 1) = of_int (2 ^ nat (bits n - 1))"
    using b by (simp add: pow2_nat)
  also have "\<dots> \<le> of_int n"
    using lo by (simp only: of_int_le_iff)
  finally show "pow2 (bits n - 1) \<le> of_int n" .
  have "(of_int n :: rat) < of_int (2 ^ nat (bits n))"
    using hi by (simp only: of_int_less_iff)
  also have "\<dots> = pow2 (bits n)"
    using b by (simp add: pow2_nat)
  finally show "of_int n < pow2 (bits n)" .
qed

lemma ilog2_bounds:
  assumes "0 < x"
  shows "pow2 (ilog2 x) \<le> x" and "x < pow2 (ilog2 x + 1)"
proof -
  obtain p q where pq: "quotient_of x = (p, q)" by (cases "quotient_of x")
  from quotient_of_denom_pos[OF pq] have q: "0 < q" .
  from quotient_of_div[OF pq] have x: "x = of_int p / of_int q" .
  from assms q have p: "0 < p"
    by (simp add: x zero_less_divide_iff)
  define d where "d = bits p - bits q"
  note P = bits_pow2[OF p] and Q = bits_pow2[OF q]
  have qpos: "(0 :: rat) < of_int q" using q by simp
  have up: "x < pow2 (d + 1)"
  proof -
    have "x * of_int q = of_int p" using q by (simp add: x)
    also have "\<dots> < pow2 (bits p)" by (rule P(2))
    also have "\<dots> = pow2 (d + 1) * pow2 (bits q - 1)"
      by (simp add: d_def pow2_add[symmetric])
    also have "\<dots> \<le> pow2 (d + 1) * of_int q"
      using Q(1) pow2_pos[of "d + 1"] by (simp add: mult_left_mono)
    finally show ?thesis using qpos by simp
  qed
  have lo: "pow2 (d - 1) < x"
  proof -
    have "pow2 (d - 1) * of_int q < pow2 (d - 1) * pow2 (bits q)"
      using Q(2) pow2_pos[of "d - 1"] by (simp add: mult_strict_left_mono)
    also have "\<dots> = pow2 (bits p - 1)"
      by (simp add: d_def pow2_add[symmetric])
    also have "\<dots> \<le> of_int p" by (rule P(1))
    also have "\<dots> = x * of_int q" using q by (simp add: x)
    finally show ?thesis using qpos by simp
  qed
  have il: "ilog2 x = (if pow2 d \<le> x then d else d - 1)"
    by (simp add: ilog2_def pq d_def Let_def)
  show "pow2 (ilog2 x) \<le> x"
    using lo by (auto simp: il)
  show "x < pow2 (ilog2 x + 1)"
    using up by (auto simp: il)
qed

lemma ilog2_ge:
  assumes "pow2 e \<le> x"
  shows "e \<le> ilog2 x"
proof -
  have "0 < x" using pow2_pos[of e] assms by simp
  from ilog2_bounds(2)[OF this] assms have "pow2 e < pow2 (ilog2 x + 1)" by simp
  from pow2_less_D[OF this] show ?thesis by simp
qed

lemma ilog2_le:
  assumes "0 < x" and "x < pow2 (e + 1)"
  shows "ilog2 x \<le> e"
proof -
  from ilog2_bounds(1)[OF assms(1)] assms(2) have "pow2 (ilog2 x) < pow2 (e + 1)" by simp
  from pow2_less_D[OF this] show ?thesis by simp
qed

lemma round_even_err: "\<bar>of_int (round_even y) - y\<bar> \<le> 1 / 2"
proof -
  have "of_int \<lfloor>y\<rfloor> \<le> y" "y < of_int \<lfloor>y\<rfloor> + 1" by linarith+
  then show ?thesis
    by (auto simp: round_even_def Let_def)
qed

lemma round_even_int: "round_even (of_int m) = m"
  by (simp add: round_even_def)

lemma rnd_err:
  assumes "0 < x" and "- 1022 \<le> ilog2 x"
  shows "\<bar>rnd x - x\<bar> \<le> x * pow2 (- 53)"
proof -
  define q where "q = pow2 (ilog2 x - 52)"
  have qp: "0 < q" by (simp add: q_def pow2_pos)
  have m: "max (ilog2 x - 52) (- 1074) = ilog2 x - 52"
    using assms(2) by simp
  have r: "rnd x = of_int (round_even (x / q)) * q"
    using assms(1) by (simp add: rnd_def m q_def Let_def)
  have "rnd x - x = (of_int (round_even (x / q)) - x / q) * q"
    using qp by (simp add: r left_diff_distrib)
  then have "\<bar>rnd x - x\<bar> = \<bar>of_int (round_even (x / q)) - x / q\<bar> * q"
    using qp by (simp add: abs_mult)
  also have "\<dots> \<le> (1 / 2) * q"
    using round_even_err[of "x / q"] qp by (intro mult_right_mono) auto
  also have "\<dots> = pow2 (ilog2 x) * pow2 (- 53)"
  proof -
    have "(1 / 2 :: rat) = pow2 (- 1)" by (simp add: pow2_def)
    then have "(1 / 2) * q = pow2 (- 1 + (ilog2 x - 52))"
      unfolding q_def pow2_add by simp
    also have "- 1 + (ilog2 x - 52) = ilog2 x + (- 53)" by simp
    finally show ?thesis unfolding pow2_add .
  qed
  also have "\<dots> \<le> x * pow2 (- 53)"
    using ilog2_bounds(1)[OF assms(1)] pow2_pos[of "- 53"] by (intro mult_right_mono) auto
  finally show ?thesis .
qed

lemma rnd_int:
  assumes "0 < n" and "n < 2 ^ 53"
  shows "rnd (of_int n) = of_int n"
proof -
  let ?x = "of_int n :: rat"
  have x: "0 < ?x" using assms by simp
  have "pow2 0 \<le> ?x" using assms(1) by (simp add: pow2_def)
  from ilog2_ge[OF this] have lo: "0 \<le> ilog2 ?x" .
  have "?x < of_int (2 ^ 53)" using assms(2) by (simp only: of_int_less_iff)
  then have "?x < pow2 (52 + 1)" by (simp add: pow2_def)
  from ilog2_le[OF x this] have hi: "ilog2 ?x \<le> 52" .
  define k where "k = nat (52 - ilog2 ?x)"
  have q: "pow2 (ilog2 ?x - 52) = 1 / 2 ^ k"
    using hi by (auto simp: pow2_def k_def)
  have m: "max (ilog2 ?x - 52) (- 1074) = ilog2 ?x - 52"
    using lo by simp
  have d: "?x / (1 / 2 ^ k) = of_int (n * 2 ^ k)" by simp
  have "rnd ?x = of_int (round_even (?x / (1 / 2 ^ k))) * (1 / 2 ^ k)"
    using assms(1) by (simp add: rnd_def m q Let_def)
  also have "\<dots> = ?x"
    unfolding d round_even_int by simp
  finally show ?thesis .
qed

subsection \<open>The error of the percentage\<close>

lemma rnd_0: "rnd 0 = 0"
  by (simp add: rnd_def)

lemma pct_err:
  fixes d t :: int
  assumes d: "0 < d" and dt: "d \<le> t" and t: "t < 2 ^ 32"
  shows "\<bar>fmul (fdiv (of_int d) (of_int t)) 1000 - 1000 * of_int d / of_int t\<bar>
      \<le> 3000 * pow2 (- 53)"
proof -
  define x :: rat where "x = of_int d / of_int t"
  define u :: rat where "u = pow2 (- 53)"
  have tp: "(0 :: rat) < of_int t" using d dt by simp
  have u: "0 < u" "u \<le> 1 / 2" by (simp_all add: u_def pow2_def)
  have x0: "0 < x" using d tp by (simp add: x_def)
  have x1: "x \<le> 1" using dt tp by (simp add: x_def)
  have "(of_int t :: rat) \<le> of_int (2 ^ 32)" using t by (simp only: of_int_le_iff)
  then have t32: "(of_int t :: rat) \<le> 2 ^ 32" by simp
  have "(1 :: rat) \<le> of_int d" using d by (simp add: int_one_le_iff_zero_less)
  then have "1 / 2 ^ 32 \<le> x"
    unfolding x_def using tp t32 by (intro frac_le) auto
  then have xl: "pow2 (- 32) \<le> x" by (simp add: pow2_def)
  from ilog2_ge[OF xl] have "- 1022 \<le> ilog2 x" by simp
  from rnd_err[OF x0 this] have e1: "\<bar>rnd x - x\<bar> \<le> x * u" by (simp add: u_def)
  have xu: "x * u \<le> u" using x1 u(1) by (simp add: mult_left_le_one_le)
  have xu2: "x * u \<le> x / 2" using x0 u(2) by (simp add: field_simps)
  define p where "p = rnd x * 1000"
  have r1lo: "x / 2 \<le> rnd x" using e1 xu2 by linarith
  have r1hi: "rnd x \<le> 2" using e1 xu x1 u(2) by linarith
  have p0: "0 < p" using r1lo x0 by (simp add: p_def)
  have "x \<le> p" using r1lo x0 by (simp add: p_def)
  with xl have "pow2 (- 32) \<le> p" by simp
  from ilog2_ge[OF this] have "- 1022 \<le> ilog2 p" by simp
  from rnd_err[OF p0 this] have e2: "\<bar>rnd p - p\<bar> \<le> p * u" by (simp add: u_def)
  have "p \<le> 2000" using r1hi by (simp add: p_def)
  then have pu: "p * u \<le> 2000 * u" using u(1) by simp
  have "p - 1000 * x = 1000 * (rnd x - x)"
    by (simp add: p_def)
  then have "\<bar>p - 1000 * x\<bar> = \<bar>1000 * (rnd x - x)\<bar>"
    by (rule arg_cong)
  also have "\<dots> = 1000 * \<bar>rnd x - x\<bar>"
    unfolding abs_mult by simp
  finally have "\<bar>p - 1000 * x\<bar> = 1000 * \<bar>rnd x - x\<bar>" .
  also have "\<dots> \<le> 1000 * u" using e1 xu by simp
  finally have e3: "\<bar>p - 1000 * x\<bar> \<le> 1000 * u" .
  have "\<bar>rnd p - 1000 * x\<bar> \<le> 3000 * u"
    using e2 pu e3 by linarith
  then show ?thesis
    by (simp add: fmul_def fdiv_def p_def x_def u_def)
qed

lemma pct_close:
  fixes d t :: int
  assumes d: "0 \<le> d" and dt: "d \<le> t" and t0: "0 < t" and t: "t < 2 ^ 32"
  defines "y \<equiv> 1000 * of_int d / (of_int t :: rat)"
  defines "k \<equiv> \<lfloor>fmul (fdiv (of_int d) (of_int t)) 1000 + 1 / 2\<rfloor>"
  shows "\<bar>of_int k - y\<bar> \<le> 1 / 2" and "k = round y \<or> y = of_int k + 1 / 2"
proof -
  define r where "r = fmul (fdiv (of_int d) (of_int t)) 1000"
  define eps :: rat where "eps = 3000 * pow2 (- 53)"
  have tp: "(0 :: rat) < of_int t" using t0 by simp
  have er: "\<bar>r - y\<bar> \<le> eps"
  proof (cases "d = 0")
    case True
    then show ?thesis
      by (simp add: r_def y_def eps_def fmul_def fdiv_def rnd_0 pow2_def)
  next
    case False
    with d have "0 < d" by simp
    from pct_err[OF this dt t] show ?thesis
      by (simp add: r_def y_def eps_def)
  qed
  have k: "of_int k \<le> r + 1 / 2" "r + 1 / 2 < of_int k + 1"
    unfolding k_def r_def[symmetric] by linarith+
  have "(of_int t :: rat) < of_int (2 ^ 32)" using t by (simp only: of_int_less_iff)
  then have t32: "(of_int t :: rat) < 2 ^ 32" by simp
  have "2 * of_int t * eps < 2 * 2 ^ 32 * eps"
    using t32 by (simp add: eps_def pow2_def)
  also have "\<dots> < 1" by (simp add: eps_def pow2_def)
  finally have te: "2 * of_int t * eps < 1" .
  have ty: "2 * of_int t * y = of_int (2000 * d)"
    using tp by (simp add: y_def)
  have up: "y \<le> of_int k + 1 / 2"
  proof -
    have "y < of_int k + 1 / 2 + eps" using er k by linarith
    then have "2 * of_int t * y < 2 * of_int t * (of_int k + 1 / 2 + eps)"
      using tp by simp
    also have "\<dots> = of_int (t * (2 * k + 1)) + 2 * of_int t * eps"
      by (simp add: algebra_simps)
    also have "\<dots> < of_int (t * (2 * k + 1)) + 1" using te by simp
    finally have "(of_int (2000 * d) :: rat) < of_int (t * (2 * k + 1) + 1)"
      unfolding ty by simp
    then have "2000 * d < t * (2 * k + 1) + 1" by (simp only: of_int_less_iff)
    then have "2000 * d \<le> t * (2 * k + 1)" by simp
    then have "(of_int (2000 * d) :: rat) \<le> of_int (t * (2 * k + 1))"
      by (simp only: of_int_le_iff)
    then have "2 * of_int t * y \<le> 2 * of_int t * (of_int k + 1 / 2)"
      unfolding ty by (simp add: algebra_simps)
    then show ?thesis using tp by simp
  qed
  have lo: "of_int k - 1 / 2 \<le> y"
  proof -
    have "of_int k - 1 / 2 - eps \<le> y" using er k by linarith
    then have "2 * of_int t * (of_int k - 1 / 2 - eps) \<le> 2 * of_int t * y"
      using tp by simp
    moreover have "2 * of_int t * (of_int k - 1 / 2 - eps)
        = of_int (t * (2 * k - 1)) - 2 * of_int t * eps"
      by (simp add: algebra_simps)
    ultimately have "of_int (t * (2 * k - 1)) - 1 < (of_int (2000 * d) :: rat)"
      unfolding ty using te by linarith
    then have "(of_int (t * (2 * k - 1) - 1) :: rat) < of_int (2000 * d)"
      by simp
    then have "t * (2 * k - 1) - 1 < 2000 * d" by (simp only: of_int_less_iff)
    then have "t * (2 * k - 1) \<le> 2000 * d" by simp
    then have "(of_int (t * (2 * k - 1)) :: rat) \<le> of_int (2000 * d)"
      by (simp only: of_int_le_iff)
    then have "2 * of_int t * (of_int k - 1 / 2) \<le> 2 * of_int t * y"
      unfolding ty by (simp add: algebra_simps)
    then show ?thesis using tp by simp
  qed
  show "\<bar>of_int k - y\<bar> \<le> 1 / 2"
    using up lo by linarith
  show "k = round y \<or> y = of_int k + 1 / 2"
  proof (cases "y = of_int k + 1 / 2")
    case True
    then show ?thesis by simp
  next
    case False
    with up have "y < of_int k + 1 / 2" by simp
    with lo have "\<lfloor>y + 1 / 2\<rfloor> = k"
      by (intro floor_unique) linarith+
    then show ?thesis by (simp add: round_def)
  qed
qed

text \<open>
  A list of 400 tasks of which 201 are done: the exact quotient is 502.5, the doubles
  give \<^verbatim>\<open>502.49999999999994\<close>, and \<^verbatim>\<open>pct\<close> is 50.2 where rounding the exact quotient
  half up gives 50.3.
\<close>

lemma summarize_tie:
  assumes "read_tasks h tasks = Some ts"
    and "length (filter (\<lambda>x. \<not> truthy (snd (snd x))) ts) = 199"
    and "length (filter (\<lambda>x. truthy (snd (snd x))) ts) = 201"
  shows "summarize h tasks = Inr \<lparr>s_active = 199, s_done = 201, s_pct = fdiv 502 10\<rparr>"
    and "round (1000 * 201 / 400 :: rat) = 503"
    and "fdiv 502 10 < (503 / 10 :: rat)"
proof -
  have t: "fadd 199 201 = 400"
    by code_simp
  have p: "fdiv (Math_round (fmul (fdiv 201 400) 1000)) 10 = fdiv 502 10"
    by code_simp
  show "summarize h tasks = Inr \<lparr>s_active = 199, s_done = 201, s_pct = fdiv 502 10\<rparr>"
    using summarize_truthy[OF assms(1)] unfolding assms(2,3) by (simp add: t p)
  show "round (1000 * 201 / 400 :: rat) = 503"
    by code_simp
  show "fdiv 502 10 < (503 / 10 :: rat)"
    by code_simp
qed

text \<open>
  C2. For every task list (an array of objects whose \<^verbatim>\<open>done\<close> is a boolean),
  \<^verbatim>\<open>summarize\<close> returns without throwing, and its result is a function of the list's
  contents alone: \<^verbatim>\<open>active\<close> is the number of tasks with \<^verbatim>\<open>done\<close> false and \<^verbatim>\<open>done\<close>
  the number with \<^verbatim>\<open>done\<close> true. With \<^verbatim>\<open>total = active + done\<close>, \<^verbatim>\<open>pct\<close> is 0 when
  the total is 0. Otherwise, the total being below \<open>2 ^ 32\<close> as the length of every
  array is, \<^verbatim>\<open>pct\<close> is \<^verbatim>\<open>round(done / total * 1000) / 10\<close> as doubles compute it. That
  value is the double of \<open>k / 10\<close> for an integer \<open>k\<close> at most one half away from the
  exact \<open>1000 * done / total\<close>; \<open>k\<close> is that exact quotient rounded half up, unless the
  quotient lies exactly halfway between two integers, where the doubles may fall on the
  lower one.
\<close>

theorem summarize_correct:
  assumes "read_tasks h tasks = Some ts"
    and "\<forall>t \<in> set ts. snd (snd t) = Bool True \<or> snd (snd t) = Bool False"
  shows "(let active = length (filter (\<lambda>t. snd (snd t) = Bool False) ts);
              done = length (filter (\<lambda>t. snd (snd t) = Bool True) ts);
              total = active + done;
              exact = 1000 * of_nat done / (of_nat total :: rat)
          in \<exists>pct. summarize h tasks = Inr \<lparr>s_active = active, s_done = done, s_pct = pct\<rparr>
               \<and> (total = 0 \<longrightarrow> pct = 0)
               \<and> (0 < total \<and> total < 2 ^ 32 \<longrightarrow>
                    pct = fdiv (Math_round (fmul (fdiv (of_nat done) (of_nat total)) 1000)) 10
                    \<and> (\<exists>k. pct = fdiv (of_int k) 10
                          \<and> \<bar>of_int k - exact\<bar> \<le> 1 / 2
                          \<and> (k = round exact \<or> exact = of_int k + 1 / 2))))"
proof -
  define a where "a = length (filter (\<lambda>t. snd (snd t) = Bool False) ts)"
  define d where "d = length (filter (\<lambda>t. snd (snd t) = Bool True) ts)"
  have f1: "filter (\<lambda>x. \<not> truthy (snd (snd x))) ts = filter (\<lambda>t. snd (snd t) = Bool False) ts"
    using assms(2) by (intro filter_cong) auto
  have f2: "filter (\<lambda>x. truthy (snd (snd x))) ts = filter (\<lambda>t. snd (snd t) = Bool True) ts"
    using assms(2) by (intro filter_cong) auto
  define pct where "pct = (if fadd (of_nat a) (of_nat d) = 0 then 0
      else fdiv (Math_round (fmul (fdiv (of_nat d) (fadd (of_nat a) (of_nat d))) 1000)) 10)"
  have s: "summarize h tasks = Inr \<lparr>s_active = a, s_done = d, s_pct = pct\<rparr>"
    using summarize_truthy[OF assms(1)] unfolding f1 f2 a_def d_def pct_def .
  define t where "t = a + d"
  have p: "pct = fdiv (Math_round (fmul (fdiv (of_nat d) (of_nat t)) 1000)) 10
      \<and> (\<exists>k. pct = fdiv (of_int k) 10
            \<and> \<bar>of_int k - 1000 * of_nat d / (of_nat t :: rat)\<bar> \<le> 1 / 2
            \<and> (k = round (1000 * of_nat d / (of_nat t :: rat))
               \<or> 1000 * of_nat d / (of_nat t :: rat) = of_int k + 1 / 2))"
    if t0: "0 < t" and t1: "t < 2 ^ 32"
  proof -
    have i0: "0 < int t" using t0 by (simp only: of_nat_0_less_iff)
    have "int t < int (2 ^ 32)" using t1 by (simp only: of_nat_less_iff)
    then have i1: "int t < 2 ^ 32" by simp
    then have i2: "int t < 2 ^ 53" by simp
    have "fadd (of_nat a) (of_nat d) = rnd (of_int (int t))"
      by (simp add: fadd_def t_def)
    also have "\<dots> = of_int (int t)"
      using i0 i2 by (rule rnd_int)
    finally have tot: "fadd (of_nat a) (of_nat d) = of_nat t" by simp
    have nz: "(of_nat t :: rat) \<noteq> 0" using t0 by simp
    have pe: "pct = fdiv (Math_round (fmul (fdiv (of_nat d) (of_nat t)) 1000)) 10"
      unfolding pct_def tot using nz by simp
    have dd: "0 \<le> int d" "int d \<le> int t" by (simp_all add: t_def)
    note c = pct_close[OF dd i0 i1]
    define k where "k = \<lfloor>fmul (fdiv (of_int (int d)) (of_int (int t))) 1000 + 1 / 2\<rfloor>"
    have "pct = fdiv (of_int k) 10"
      by (simp add: pe k_def Math_round_def)
    moreover have "\<bar>of_int k - 1000 * of_nat d / (of_nat t :: rat)\<bar> \<le> 1 / 2"
      using c(1) by (simp add: k_def)
    moreover have "k = round (1000 * of_nat d / (of_nat t :: rat))
               \<or> 1000 * of_nat d / (of_nat t :: rat) = of_int k + 1 / 2"
      using c(2) by (simp add: k_def)
    ultimately show ?thesis using pe by blast
  qed
  have z: "t = 0 \<longrightarrow> pct = 0"
    by (simp add: pct_def fadd_def rnd_0 t_def)
  show ?thesis
    unfolding Let_def a_def[symmetric] d_def[symmetric] t_def[symmetric]
    using s z p by blast
qed

text \<open>
  The three lists of the specification: two done tasks and an active one (66.7), no task,
  and one active task.
\<close>

theorem summarize_correct_witness:
  "summarize
     [Object [(''id'', Str ''a''), (''title'', Str ''x''), (''done'', Bool True)],
      Object [(''id'', Str ''b''), (''title'', Str ''y''), (''done'', Bool True)],
      Object [(''id'', Str ''c''), (''title'', Str ''z''), (''done'', Bool False)],
      Array [Ref 0, Ref 1, Ref 2]] (Ref 3)
     = Inr \<lparr>s_active = 1, s_done = 2, s_pct = fdiv 667 10\<rparr>
   \<and> summarize [Array []] (Ref 0) = Inr \<lparr>s_active = 0, s_done = 0, s_pct = 0\<rparr>
   \<and> summarize
       [Object [(''id'', Str ''c''), (''title'', Str ''z''), (''done'', Bool False)],
        Array [Ref 0]] (Ref 1)
     = Inr \<lparr>s_active = 1, s_done = 0, s_pct = 0\<rparr>"
proof -
  let ?h3 = "[Object [(''id'', Str ''a''), (''title'', Str ''x''), (''done'', Bool True)],
      Object [(''id'', Str ''b''), (''title'', Str ''y''), (''done'', Bool True)],
      Object [(''id'', Str ''c''), (''title'', Str ''z''), (''done'', Bool False)],
      Array [Ref 0, Ref 1, Ref 2]]"
  let ?h1 = "[Object [(''id'', Str ''c''), (''title'', Str ''z''), (''done'', Bool False)],
        Array [Ref 0]]"
  have r3: "read_tasks ?h3 (Ref 3)
      = Some [(Str ''a'', Str ''x'', Bool True), (Str ''b'', Str ''y'', Bool True),
              (Str ''c'', Str ''z'', Bool False)]"
    by (simp add: read_tasks_def elems_def read_task_def)
  have r0: "read_tasks [Array []] (Ref 0) = Some []"
    by (simp add: read_tasks_def elems_def)
  have r1: "read_tasks ?h1 (Ref 1) = Some [(Str ''c'', Str ''z'', Bool False)]"
    by (simp add: read_tasks_def elems_def read_task_def)
  have p3: "fdiv (Math_round (fmul (fdiv 2 3) 1000)) 10 = fdiv 667 10"
    by code_simp
  have p1: "fdiv (Math_round (fmul (fdiv 0 1) 1000)) 10 = 0"
    by code_simp
  show ?thesis
    using summarize_correct[OF r3] summarize_correct[OF r0] summarize_correct[OF r1] p3 p1
    by (simp add: Let_def)
qed

section \<open>Every reachable state is an array of records\<close>

lemma listed_holds: "holds_tasks (heap w) (state s) ts \<Longrightarrow> listed s w = Some ts"
  using list_spec[of w s ts] by (auto simp: listed_def holds_tasks_read)

lemma materialize_isArray:
  "isArray (snd (materialize j h)) (fst (materialize j h)) \<longleftrightarrow> (\<exists>vs. j = JArr vs)"
  by (cases j) (auto simp: isArray_def alloc_def split: prod.splits)

lemma holds_empty: "holds_tasks (h @ [Array []] @ e) (Ref (length h)) []"
  by (simp add: holds_tasks_def elems_def nth_append)

lemma hydrate_result:
  assumes "hydrate key w st = Inr (st1, h1)"
    and "holds_tasks (heap w) st []"
  shows "\<exists>ts. holds_tasks h1 st1 ts \<and> (\<forall>t \<in> set ts. \<exists>b. snd (snd t) = Bool b)"
proof -
  from assms(1) obtain raw where raw: "getItem w key = Inr raw"
    by (cases "getItem w key") (auto simp: hydrate_def)
  show ?thesis
  proof (cases "truthy raw")
    case False
    with assms raw show ?thesis
      by (auto simp: hydrate_def intro!: exI[of _ "[]"])
  next
    case True
    with assms(1) raw obtain parsed hp where p: "JSON_parse (heap w) raw = Inr (parsed, hp)"
      by (cases "JSON_parse (heap w) raw") (auto simp: hydrate_def)
    then obtain j where j: "materialize j (heap w) = (parsed, hp)"
      by (auto simp: JSON_parse_def split: option.splits)
    from materialize_ext(1)[of j "heap w"] j obtain e where hp: "hp = heap w @ e"
      by auto
    show ?thesis
    proof (cases "isArray hp parsed")
      case False
      with assms(1) raw True p have "st1 = st" "h1 = hp"
        by (auto simp: hydrate_def)
      then show ?thesis
        using holds_tasks_ext[OF assms(2), of e] hp by (intro exI[of _ "[]"]) simp
    next
      case isa: True
      with assms(1) raw True p have am: "Array_map hydrate_item hp parsed = Inr (st1, h1)"
        by (auto simp: hydrate_def)
      then obtain xs where xs: "elems hp parsed = Inr xs"
        by (cases "elems hp parsed") (auto simp: Array_map_def)
      from am xs obtain ys hm where m: "map_cb hydrate_item hp xs = Inr (ys, hm)"
        by (cases "map_cb hydrate_item hp xs") (auto simp: Array_map_def)
      from am xs m have st1: "st1 = Ref (length hm)" and h1: "h1 = hm @ [Array ys]"
        by (auto simp: Array_map_def alloc_def)
      from map_cb_hydrate[OF m] obtain ts where
        all: "list_all2 (holds_task hm) ys ts" and bs: "\<forall>t \<in> set ts. \<exists>b. snd (snd t) = Bool b"
        by blast
      have "holds_tasks h1 st1 ts"
        using holds_all_ext[OF all, of "[Array ys]"] by (simp add: holds_tasks_def st1 h1)
      with bs show ?thesis by blast
    qed
  qed
qed

lemma createStore_inv:
  assumes "createStore key w0 = (s, w)"
  shows "store_inv s w" and "storageKey s = key" and "items w = items w0"
    and "readable w = readable w0" and "accepts w = accepts w0"
proof -
  let ?h0 = "heap w0 @ [Array []]"
  let ?st0 = "Ref (length (heap w0))"
  have e0: "holds_tasks (heap (w0\<lparr>heap := ?h0\<rparr>)) ?st0 []"
    using holds_empty[of "heap w0" "[]"] by simp
  show "store_inv s w"
  proof (cases "hydrate key (w0\<lparr>heap := ?h0\<rparr>) ?st0")
    case (Inl e)
    with assms have "state s = Ref (length ?h0)" "heap w = ?h0 @ [Array []]"
      by (auto simp: createStore_def alloc_def)
    then show ?thesis
      using holds_empty[of ?h0 "[]"] by (auto simp: store_inv_def intro!: exI[of _ "[]"])
  next
    case (Inr r)
    obtain st1 h1 where r: "r = (st1, h1)" by (cases r)
    with Inr assms have "state s = st1" "heap w = h1"
      by (auto simp: createStore_def alloc_def)
    then show ?thesis
      using hydrate_result[OF Inr[unfolded r] e0] by (simp add: store_inv_def)
  qed
  show "storageKey s = key" "items w = items w0" "readable w = readable w0" "accepts w = accepts w0"
    using assms by (auto simp: createStore_def alloc_def split: sum.splits prod.splits)
qed

lemma add_gets:
  assumes "add s task w = Inr r"
  shows "\<exists>i t d. get_prop (heap w) task ''id'' = Inr i \<and> get_prop (heap w) task ''title'' = Inr t
      \<and> get_prop (heap w) task ''done'' = Inr d"
proof -
  from assms obtain i where i: "get_prop (heap w) task ''id'' = Inr i"
    by (cases "get_prop (heap w) task ''id''") (auto simp: add_def)
  from get_prop_total[OF i] show ?thesis using i by blast
qed

lemma store_invI:
  "holds_tasks (heap w) (state s) ts \<Longrightarrow> \<forall>t \<in> set ts. \<exists>b. snd (snd t) = Bool b \<Longrightarrow> store_inv s w"
  by (auto simp: store_inv_def)

lemma reachable_inv: "reachable s w \<Longrightarrow> store_inv s w"
proof (induction rule: reachable.induct)
  case (by_create key w0 s w)
  then show ?case by (rule createStore_inv(1))
next
  case (by_add s w task snap s' w')
  from by_add.IH obtain ts where ht: "holds_tasks (heap w) (state s) ts"
    and bs: "\<forall>t \<in> set ts. \<exists>b. snd (snd t) = Bool b"
    by (auto simp: store_inv_def)
  from add_gets[OF by_add.hyps(2)] obtain i t d where
    g: "get_prop (heap w) task ''id'' = Inr i" "get_prop (heap w) task ''title'' = Inr t"
       "get_prop (heap w) task ''done'' = Inr d" by blast
  from add_spec[OF ht g] obtain snap0 st hm h' where
    eq: "add s task w = Inr (snap0, s\<lparr>state := st\<rparr>,
           (persist (s\<lparr>state := st\<rparr>) (w\<lparr>heap := heap w @ hm\<rparr>))\<lparr>heap := heap w @ hm @ h'\<rparr>)"
    and h: "holds_tasks (heap w @ hm @ h') st (ts @ [(i, t, Bool (truthy d))])"
    by blast
  from eq by_add.hyps(2) have "state s' = st" "heap w' = heap w @ hm @ h'"
    by auto
  with h have "holds_tasks (heap w') (state s') (ts @ [(i, t, Bool (truthy d))])"
    by simp
  then show ?case
    by (rule store_invI) (use bs in auto)
next
  case (by_toggle s w id' snap s' w')
  from by_toggle.IH obtain ts where ht: "holds_tasks (heap w) (state s) ts"
    and bs: "\<forall>t \<in> set ts. \<exists>b. snd (snd t) = Bool b"
    by (auto simp: store_inv_def)
  from toggle_spec[OF ht, of id'] obtain snap0 st hm h' where
    eq: "toggle s id' w = Inr (snap0, s\<lparr>state := st\<rparr>,
           (persist (s\<lparr>state := st\<rparr>) (w\<lparr>heap := heap w @ hm\<rparr>))\<lparr>heap := heap w @ hm @ h'\<rparr>)"
    and h: "holds_tasks (heap w @ hm @ h') st (map (toggled id') ts)"
    by blast
  from eq by_toggle.hyps(2) have "state s' = st" "heap w' = heap w @ hm @ h'"
    by auto
  with h have "holds_tasks (heap w') (state s') (map (toggled id') ts)"
    by simp
  then show ?case
    by (rule store_invI) (use bs in \<open>auto simp: toggled_def\<close>)
next
  case (by_remove s w id' snap s' w')
  from by_remove.IH obtain ts where ht: "holds_tasks (heap w) (state s) ts"
    and bs: "\<forall>t \<in> set ts. \<exists>b. snd (snd t) = Bool b"
    by (auto simp: store_inv_def)
  from remove_spec[OF ht, of id'] obtain snap0 st hm h' where
    eq: "remove s id' w = Inr (snap0, s\<lparr>state := st\<rparr>,
           (persist (s\<lparr>state := st\<rparr>) (w\<lparr>heap := heap w @ hm\<rparr>))\<lparr>heap := heap w @ hm @ h'\<rparr>)"
    and h: "holds_tasks (heap w @ hm @ h') st (filter (\<lambda>t. fst t \<noteq> id') ts)"
    by blast
  from eq by_remove.hyps(2) have "state s' = st" "heap w' = heap w @ hm @ h'"
    by auto
  with h have "holds_tasks (heap w') (state s') (filter (\<lambda>t. fst t \<noteq> id') ts)"
    by simp
  then show ?case
    by (rule store_invI) (use bs in auto)
next
  case (by_list s w snap w')
  from by_list.IH obtain ts where ht: "holds_tasks (heap w) (state s) ts"
    and bs: "\<forall>t \<in> set ts. \<exists>b. snd (snd t) = Bool b"
    by (auto simp: store_inv_def)
  from list_spec2[OF ht] obtain h' where
    eq: "list s w = Inr (Ref (length (heap w) + length ts), w\<lparr>heap := heap w @ h'\<rparr>)"
    and h: "holds_tasks (heap w @ h') (state s) ts"
    by blast
  from eq by_list.hyps(2) have "heap w' = heap w @ h'"
    by auto
  with h have "holds_tasks (heap w') (state s) ts"
    by simp
  then show ?case
    using bs by (rule store_invI)
next
  case (by_caller s w w')
  from by_caller.IH obtain ts where ht: "holds_tasks (heap w) (state s) ts"
    and bs: "\<forall>t \<in> set ts. \<exists>b. snd (snd t) = Bool b"
    by (auto simp: store_inv_def)
  have "holds_tasks (heap w') (state s) ts"
    using ht by_caller.hyps(2) unfolding untouched_def by (rule holds_tasks_frame)
  then show ?case
    using bs by (rule store_invI)
qed

section \<open>What the mutators return\<close>

lemma reachable_listed:
  assumes "reachable s w" and "listed s w = Some ts"
  shows "holds_tasks (heap w) (state s) ts" and "\<forall>t \<in> set ts. \<exists>b. snd (snd t) = Bool b"
proof -
  from reachable_inv[OF assms(1)] obtain ts' where h: "holds_tasks (heap w) (state s) ts'"
    and b: "\<forall>t \<in> set ts'. \<exists>b. snd (snd t) = Bool b"
    by (auto simp: store_inv_def)
  from listed_holds[OF h] assms(2) have "ts' = ts" by simp
  with h b show "holds_tasks (heap w) (state s) ts" "\<forall>t \<in> set ts. \<exists>b. snd (snd t) = Bool b"
    by auto
qed

lemma toggled_keeps:
  "map fst (map (toggled id') ts) = map fst ts"
  "map (\<lambda>t. fst (snd t)) (map (toggled id') ts) = map (\<lambda>t. fst (snd t)) ts"
  by (simp_all add: toggled_def comp_def)

lemma add_listed:
  assumes ht: "holds_tasks (heap w) (state s) ts"
    and g: "get_prop (heap w) task ''id'' = Inr i" "get_prop (heap w) task ''title'' = Inr t"
      "get_prop (heap w) task ''done'' = Inr d"
  shows "\<exists>snap s' w' hm h'. add s task w = Inr (snap, s', w')
      \<and> read_tasks (heap w') snap = Some (ts @ [(i, t, Bool (truthy d))])
      \<and> holds_tasks (heap w') (state s') (ts @ [(i, t, Bool (truthy d))])
      \<and> holds_tasks (heap w @ hm) (state s') (ts @ [(i, t, Bool (truthy d))])
      \<and> storageKey s' = storageKey s
      \<and> w' = (persist s' (w\<lparr>heap := heap w @ hm\<rparr>))\<lparr>heap := heap w @ hm @ h'\<rparr>"
proof -
  from add_spec[OF ht g] obtain snap st hm h' where
    eq: "add s task w = Inr (snap, s\<lparr>state := st\<rparr>,
           (persist (s\<lparr>state := st\<rparr>) (w\<lparr>heap := heap w @ hm\<rparr>))\<lparr>heap := heap w @ hm @ h'\<rparr>)"
    and h0: "holds_tasks (heap w @ hm) st (ts @ [(i, t, Bool (truthy d))])"
    and h1: "holds_tasks (heap w @ hm @ h') st (ts @ [(i, t, Bool (truthy d))])"
    and h2: "holds_tasks (heap w @ hm @ h') snap (ts @ [(i, t, Bool (truthy d))])"
    by blast
  show ?thesis
    using eq h0 h1 holds_tasks_read[OF h2]
    by (intro exI[of _ snap] exI[of _ "s\<lparr>state := st\<rparr>"] exI[of _ hm] exI[of _ h'] exI conjI) simp_all
qed

lemma toggle_listed:
  assumes ht: "holds_tasks (heap w) (state s) ts"
  shows "\<exists>snap s' w' hm h'. toggle s id' w = Inr (snap, s', w')
      \<and> read_tasks (heap w') snap = Some (map (toggled id') ts)
      \<and> holds_tasks (heap w') (state s') (map (toggled id') ts)
      \<and> holds_tasks (heap w @ hm) (state s') (map (toggled id') ts)
      \<and> storageKey s' = storageKey s
      \<and> w' = (persist s' (w\<lparr>heap := heap w @ hm\<rparr>))\<lparr>heap := heap w @ hm @ h'\<rparr>"
proof -
  from toggle_spec[OF ht, of id'] obtain snap st hm h' where
    eq: "toggle s id' w = Inr (snap, s\<lparr>state := st\<rparr>,
           (persist (s\<lparr>state := st\<rparr>) (w\<lparr>heap := heap w @ hm\<rparr>))\<lparr>heap := heap w @ hm @ h'\<rparr>)"
    and h0: "holds_tasks (heap w @ hm) st (map (toggled id') ts)"
    and h1: "holds_tasks (heap w @ hm @ h') st (map (toggled id') ts)"
    and h2: "holds_tasks (heap w @ hm @ h') snap (map (toggled id') ts)"
    by blast
  show ?thesis
    using eq h0 h1 holds_tasks_read[OF h2]
    by (intro exI[of _ snap] exI[of _ "s\<lparr>state := st\<rparr>"] exI[of _ hm] exI[of _ h'] exI conjI) simp_all
qed

lemma remove_listed:
  assumes ht: "holds_tasks (heap w) (state s) ts"
  shows "\<exists>snap s' w' hm h'. remove s id' w = Inr (snap, s', w')
      \<and> read_tasks (heap w') snap = Some (filter (\<lambda>t. fst t \<noteq> id') ts)
      \<and> holds_tasks (heap w') (state s') (filter (\<lambda>t. fst t \<noteq> id') ts)
      \<and> holds_tasks (heap w @ hm) (state s') (filter (\<lambda>t. fst t \<noteq> id') ts)
      \<and> storageKey s' = storageKey s
      \<and> w' = (persist s' (w\<lparr>heap := heap w @ hm\<rparr>))\<lparr>heap := heap w @ hm @ h'\<rparr>"
proof -
  from remove_spec[OF ht, of id'] obtain snap st hm h' where
    eq: "remove s id' w = Inr (snap, s\<lparr>state := st\<rparr>,
           (persist (s\<lparr>state := st\<rparr>) (w\<lparr>heap := heap w @ hm\<rparr>))\<lparr>heap := heap w @ hm @ h'\<rparr>)"
    and h0: "holds_tasks (heap w @ hm) st (filter (\<lambda>t. fst t \<noteq> id') ts)"
    and h1: "holds_tasks (heap w @ hm @ h') st (filter (\<lambda>t. fst t \<noteq> id') ts)"
    and h2: "holds_tasks (heap w @ hm @ h') snap (filter (\<lambda>t. fst t \<noteq> id') ts)"
    by blast
  show ?thesis
    using eq h0 h1 holds_tasks_read[OF h2]
    by (intro exI[of _ snap] exI[of _ "s\<lparr>state := st\<rparr>"] exI[of _ hm] exI[of _ h'] exI conjI) simp_all
qed

section \<open>Sessions and the effect of persist\<close>

lemma run_reachable: "reachable s w \<Longrightarrow> run cs s w = Inr (s', w') \<Longrightarrow> reachable s' w'"
proof (induction cs arbitrary: s w)
  case Nil
  then show ?case by simp
next
  case (Cons c cs)
  let ?step = "case c of Add task \<Rightarrow> add s task w | Toggle i \<Rightarrow> toggle s i w | Remove i \<Rightarrow> remove s i w"
  from Cons.prems(2) obtain snap s1 w1 where st: "?step = Inr (snap, s1, w1)"
    and rest: "run cs s1 w1 = Inr (s', w')"
    by (cases ?step) auto
  have "reachable s1 w1"
    using st Cons.prems(1)
    by (cases c) (auto intro: reachable.by_add reachable.by_toggle reachable.by_remove)
  then show ?case
    using rest by (rule Cons.IH)
qed

lemma session_reachable: "session key w cs = Inr (s', w') \<Longrightarrow> reachable s' w'"
  unfolding session_def
  by (cases "createStore key w") (auto intro: run_reachable reachable.by_create)

lemma not_isl_projr: "\<not> isl r \<Longrightarrow> r = Inr (fst (projr r), snd (projr r))"
  by (cases r) auto

lemma persist_refused:
  assumes "\<not> readable w \<or> (\<forall>v. \<not> accepts w (storageKey s) v)"
  shows "\<exists>e. persist s w = w\<lparr>console := console w @ [LogError ''Failed to persist store:'' e]\<rparr>"
proof (cases "JSON_stringify (heap w) (state s)")
  case (Inl e)
  then show ?thesis by (auto simp: persist_def)
next
  case (Inr r)
  then show ?thesis
    using assms by (auto simp: persist_def setItem_def Let_def)
qed

lemma persist_cases:
  "(\<exists>txt. items (persist s w) = (items w)(storageKey s \<mapsto> txt) \<and> console (persist s w) = console w)
   \<or> (\<exists>e. items (persist s w) = items w
          \<and> console (persist s w) = console w @ [LogError ''Failed to persist store:'' e])"
proof (cases "JSON_stringify (heap w) (state s)")
  case (Inl e)
  then show ?thesis by (auto simp: persist_def)
next
  case (Inr r)
  then show ?thesis
    by (auto simp: persist_def setItem_def Let_def)
qed

lemma persist_write_state:
  "persist s w = (case write_state s w of
       Inr w1 \<Rightarrow> w1
     | Inl e \<Rightarrow> w\<lparr>console := console w @ [LogError ''Failed to persist store:'' e]\<rparr>)"
  by (simp add: persist_def write_state_def)

lemma write_state_Inr:
  "write_state s w = Inr w1 \<Longrightarrow> console w1 = console w \<and> heap w1 = heap w"
  by (cases "JSON_stringify (heap w) (state s)")
     (auto simp: write_state_def setItem_def Let_def split: if_splits)

lemma write_state_refused:
  assumes "\<not> readable w \<or> (\<forall>v. \<not> accepts w (storageKey s) v)"
  shows "\<exists>e. write_state s w = Inl e"
  using assms
  by (cases "JSON_stringify (heap w) (state s)")
     (auto simp: write_state_def setItem_def Let_def)

lemma persisted_outcome:
  assumes w': "w' = (persist s' (w\<lparr>heap := h\<rparr>))\<lparr>heap := h'\<rparr>"
    and k: "storageKey s' = storageKey s"
  shows "(case write_state s' (w\<lparr>heap := h\<rparr>) of
            Inl e \<Rightarrow> items w' = items w
               \<and> console w' = console w @ [LogError ''Failed to persist store:'' e]
          | Inr w1 \<Rightarrow> items w' = items w1 \<and> console w' = console w)
       \<and> (\<not> readable w \<or> (\<forall>v. \<not> accepts w (storageKey s) v) \<longrightarrow>
            (\<exists>e. write_state s' (w\<lparr>heap := h\<rparr>) = Inl e))"
proof
  show "case write_state s' (w\<lparr>heap := h\<rparr>) of
            Inl e \<Rightarrow> items w' = items w
               \<and> console w' = console w @ [LogError ''Failed to persist store:'' e]
          | Inr w1 \<Rightarrow> items w' = items w1 \<and> console w' = console w"
  proof (cases "write_state s' (w\<lparr>heap := h\<rparr>)")
    case (Inl e)
    then show ?thesis by (simp add: w' persist_write_state)
  next
    case (Inr w1)
    with write_state_Inr[OF Inr] show ?thesis by (simp add: w' persist_write_state)
  qed
  show "\<not> readable w \<or> (\<forall>v. \<not> accepts w (storageKey s) v) \<longrightarrow>
            (\<exists>e. write_state s' (w\<lparr>heap := h\<rparr>) = Inl e)"
  proof
    assume "\<not> readable w \<or> (\<forall>v. \<not> accepts w (storageKey s) v)"
    then have "\<not> readable (w\<lparr>heap := h\<rparr>) \<or> (\<forall>v. \<not> accepts (w\<lparr>heap := h\<rparr>) (storageKey s') v)"
      by (simp add: k)
    then show "\<exists>e. write_state s' (w\<lparr>heap := h\<rparr>) = Inl e"
      by (rule write_state_refused)
  qed
qed

lemma toggled_missing: "id' \<notin> fst ` set ts \<Longrightarrow> map (toggled id') ts = ts"
  by (induction ts) (auto simp: toggled_def)

lemma projr_reachable: "\<not> isl (session key w cs) \<Longrightarrow>
    reachable (fst (projr (session key w cs))) (snd (projr (session key w cs)))"
  by (rule session_reachable) (rule not_isl_projr)

lemma owned_bound:
  assumes "holds_tasks h st ts"
  shows "\<forall>a \<in> owned h st. a < length h"
proof -
  from assms obtain a xs where st: "st = Ref a" and a: "a < length h" and ha: "h ! a = Array xs"
    and all: "list_all2 (holds_task h) xs ts"
    by (auto simp: holds_tasks_def elems_def split: sum.splits jsval.splits if_splits obj.splits)
  have "b < length h" if "Ref b \<in> set xs" for b
  proof -
    from that obtain k where k: "k < length xs" "xs ! k = Ref b"
      by (auto simp: in_set_conv_nth)
    from list_all2_nthD[OF all k(1)] k(2) have "holds_task h (Ref b) (ts ! k)"
      by simp
    then show ?thesis by (simp add: holds_task_def)
  qed
  then show ?thesis
    using a ha by (auto simp: owned_def st elems_def set_refs_of)
qed

lemma same_heap_untouched:
  assumes "reachable s w" and "heap w' = heap w"
  shows "untouched s w w'"
proof -
  from reachable_inv[OF assms(1)] obtain ts where "holds_tasks (heap w) (state s) ts"
    by (auto simp: store_inv_def)
  from owned_bound[OF this] show ?thesis
    by (simp add: untouched_def assms(2))
qed

section \<open>Properties of the store\<close>

text \<open>
  C10. In every reachable state of a store, \<^verbatim>\<open>list()\<close> returns without throwing and
  the \<^verbatim>\<open>done\<close> of every task it shows is a boolean: hydration and \<^verbatim>\<open>add\<close> store
  \<^verbatim>\<open>!!done\<close>, \<^verbatim>\<open>toggle\<close> stores \<^verbatim>\<open>!done\<close> or the boolean already there, and nothing
  else writes a record. Reachable covers any stored text, any value handed to \<^verbatim>\<open>add\<close>,
  and any step of the caller in between.
\<close>

theorem done_is_boolean:
  assumes "reachable s w"
  shows "\<exists>ts. listed s w = Some ts \<and> (\<forall>t \<in> set ts. \<exists>b. snd (snd t) = Bool b)"
proof -
  from reachable_inv[OF assms] obtain ts where h: "holds_tasks (heap w) (state s) ts"
    and b: "\<forall>t \<in> set ts. \<exists>b. snd (snd t) = Bool b"
    by (auto simp: store_inv_def)
  from listed_holds[OF h] b show ?thesis by blast
qed

text \<open>
  Storage with \<^verbatim>\<open>done: 1\<close>, a task added with \<^verbatim>\<open>done: "yes"\<close>, and \<^verbatim>\<open>"a"\<close>
  toggled: the list shows \<^verbatim>\<open>false\<close> and \<^verbatim>\<open>true\<close>.
\<close>

theorem done_is_boolean_witness:
  "reachable (fst (projr ex_coerced)) (snd (projr ex_coerced))
   \<and> listed (fst (projr ex_coerced)) (snd (projr ex_coerced))
       = Some [(Str ''a'', Undefined, Bool False), (Str ''b'', Str ''B'', Bool True)]
   \<and> (\<exists>ts. listed (fst (projr ex_coerced)) (snd (projr ex_coerced)) = Some ts
           \<and> (\<forall>t \<in> set ts. \<exists>b. snd (snd t) = Bool b))"
proof -
  have "\<not> isl ex_coerced" by code_simp
  then have re: "reachable (fst (projr ex_coerced)) (snd (projr ex_coerced))"
    unfolding ex_coerced_def by (rule projr_reachable)
  have li: "listed (fst (projr ex_coerced)) (snd (projr ex_coerced))
       = Some [(Str ''a'', Undefined, Bool False), (Str ''b'', Str ''B'', Bool True)]"
    by code_simp
  from re li done_is_boolean[OF re] show ?thesis by blast
qed

text \<open>
  C3. In a reachable state whose list is \<open>ts\<close>: \<^verbatim>\<open>add\<close> returns \<open>ts\<close> with the new task
  at the end; \<^verbatim>\<open>toggle\<close> returns the tasks of \<open>ts\<close> at their positions, with the same
  ids and titles, only \<^verbatim>\<open>done\<close> negated where the id matches; \<^verbatim>\<open>remove\<close> returns the
  tasks of \<open>ts\<close> whose id differs, in their order in \<open>ts\<close>. The next \<^verbatim>\<open>list()\<close> shows the
  same.
\<close>

theorem order_preserved:
  assumes "reachable s w" and "listed s w = Some ts"
  shows "(\<forall>task i t d.
            get_prop (heap w) task ''id'' = Inr i \<and> get_prop (heap w) task ''title'' = Inr t
            \<and> get_prop (heap w) task ''done'' = Inr d \<longrightarrow>
            (\<exists>snap s' w'. add s task w = Inr (snap, s', w')
               \<and> read_tasks (heap w') snap = Some (ts @ [(i, t, Bool (truthy d))])
               \<and> listed s' w' = Some (ts @ [(i, t, Bool (truthy d))])))
       \<and> (\<forall>id'. \<exists>snap s' w' ts'. toggle s id' w = Inr (snap, s', w')
               \<and> read_tasks (heap w') snap = Some ts' \<and> listed s' w' = Some ts'
               \<and> ts' = map (toggled id') ts
               \<and> map fst ts' = map fst ts
               \<and> map (\<lambda>t. fst (snd t)) ts' = map (\<lambda>t. fst (snd t)) ts)
       \<and> (\<forall>id'. \<exists>snap s' w'. remove s id' w = Inr (snap, s', w')
               \<and> read_tasks (heap w') snap = Some (filter (\<lambda>t. fst t \<noteq> id') ts)
               \<and> listed s' w' = Some (filter (\<lambda>t. fst t \<noteq> id') ts))"
proof (intro conjI allI impI)
  note ht = reachable_listed(1)[OF assms]
  {
    fix task i t d
    assume g: "get_prop (heap w) task ''id'' = Inr i \<and> get_prop (heap w) task ''title'' = Inr t
            \<and> get_prop (heap w) task ''done'' = Inr d"
    from add_listed[OF ht, of task i t d] g listed_holds
    show "\<exists>snap s' w'. add s task w = Inr (snap, s', w')
               \<and> read_tasks (heap w') snap = Some (ts @ [(i, t, Bool (truthy d))])
               \<and> listed s' w' = Some (ts @ [(i, t, Bool (truthy d))])"
      by blast
  }
  {
    fix id'
    from toggle_listed[OF ht, of id'] listed_holds toggled_keeps[of id' ts]
    show "\<exists>snap s' w' ts'. toggle s id' w = Inr (snap, s', w')
               \<and> read_tasks (heap w') snap = Some ts' \<and> listed s' w' = Some ts'
               \<and> ts' = map (toggled id') ts
               \<and> map fst ts' = map fst ts
               \<and> map (\<lambda>t. fst (snd t)) ts' = map (\<lambda>t. fst (snd t)) ts"
      by blast
  }
  {
    fix id'
    from remove_listed[OF ht, of id'] listed_holds
    show "\<exists>snap s' w'. remove s id' w = Inr (snap, s', w')
               \<and> read_tasks (heap w') snap = Some (filter (\<lambda>t. fst t \<noteq> id') ts)
               \<and> listed s' w' = Some (filter (\<lambda>t. fst t \<noteq> id') ts)"
      by blast
  }
qed

text \<open>\<^verbatim>\<open>add(A); add(B); toggle(A.id)\<close>: the list is A (now done), then B.\<close>

theorem order_preserved_witness:
  "reachable (fst (projr ex_two_added)) (snd (projr ex_two_added))
   \<and> listed (fst (projr ex_two_added)) (snd (projr ex_two_added))
       = Some [(Str ''a'', Str ''A'', Bool False), (Str ''b'', Str ''B'', Bool False)]
   \<and> (\<exists>snap s' w'. toggle (fst (projr ex_two_added)) (Str ''a'') (snd (projr ex_two_added))
                      = Inr (snap, s', w')
         \<and> read_tasks (heap w') snap
             = Some [(Str ''a'', Str ''A'', Bool True), (Str ''b'', Str ''B'', Bool False)]
         \<and> listed s' w' = Some [(Str ''a'', Str ''A'', Bool True), (Str ''b'', Str ''B'', Bool False)])"
proof -
  have "\<not> isl ex_two_added" by code_simp
  then have re: "reachable (fst (projr ex_two_added)) (snd (projr ex_two_added))"
    unfolding ex_two_added_def by (rule projr_reachable)
  have li: "listed (fst (projr ex_two_added)) (snd (projr ex_two_added))
       = Some [(Str ''a'', Str ''A'', Bool False), (Str ''b'', Str ''B'', Bool False)]"
    by code_simp
  have m: "map (toggled (Str ''a'')) [(Str ''a'', Str ''A'', Bool False), (Str ''b'', Str ''B'', Bool False)]
      = [(Str ''a'', Str ''A'', Bool True), (Str ''b'', Str ''B'', Bool False)]"
    by (simp add: toggled_def)
  from order_preserved[OF re li] have
    "\<exists>snap s' w' ts'. toggle (fst (projr ex_two_added)) (Str ''a'') (snd (projr ex_two_added))
                      = Inr (snap, s', w')
         \<and> read_tasks (heap w') snap = Some ts' \<and> listed s' w' = Some ts'
         \<and> ts' = map (toggled (Str ''a'')) [(Str ''a'', Str ''A'', Bool False), (Str ''b'', Str ''B'', Bool False)]"
    by blast
  with re li show ?thesis unfolding m by blast
qed

text \<open>
  C7. In a reachable state whose list is \<open>ts\<close>, \<^verbatim>\<open>toggle(id)\<close> with an id that no task
  has returns a snapshot whose contents are \<open>ts\<close>, and \<^verbatim>\<open>persist\<close> has run all the same:
  the world after the call is the one \<^verbatim>\<open>persist\<close> produced for the new state (plus the
  snapshot's objects), so either the stored text was written again or the failure of the
  write was logged.
\<close>

theorem toggle_missing_id:
  assumes "reachable s w" and "listed s w = Some ts" and "id' \<notin> fst ` set ts"
  shows "\<exists>snap s' w' hm h'. toggle s id' w = Inr (snap, s', w')
      \<and> read_tasks (heap w') snap = Some ts
      \<and> listed s' w' = Some ts
      \<and> holds_tasks (heap w @ hm) (state s') ts
      \<and> storageKey s' = storageKey s
      \<and> w' = (persist s' (w\<lparr>heap := heap w @ hm\<rparr>))\<lparr>heap := heap w @ hm @ h'\<rparr>
      \<and> ((\<exists>txt. items w' = (items w)(storageKey s \<mapsto> txt) \<and> console w' = console w)
         \<or> (\<exists>e. items w' = items w
                \<and> console w' = console w @ [LogError ''Failed to persist store:'' e]))"
proof -
  note ht = reachable_listed(1)[OF assms(1,2)]
  from toggle_listed[OF ht, of id'] obtain snap s' w' hm h' where
    t: "toggle s id' w = Inr (snap, s', w')"
    and r: "read_tasks (heap w') snap = Some (map (toggled id') ts)"
    and h1: "holds_tasks (heap w') (state s') (map (toggled id') ts)"
    and h0: "holds_tasks (heap w @ hm) (state s') (map (toggled id') ts)"
    and k: "storageKey s' = storageKey s"
    and w': "w' = (persist s' (w\<lparr>heap := heap w @ hm\<rparr>))\<lparr>heap := heap w @ hm @ h'\<rparr>"
    by blast
  note m = toggled_missing[OF assms(3)]
  have p: "(\<exists>txt. items w' = (items w)(storageKey s \<mapsto> txt) \<and> console w' = console w)
         \<or> (\<exists>e. items w' = items w
                \<and> console w' = console w @ [LogError ''Failed to persist store:'' e])"
    using persist_cases[of s' "w\<lparr>heap := heap w @ hm\<rparr>"] by (simp add: w' k)
  show ?thesis
    using t r[unfolded m] listed_holds[OF h1[unfolded m]] h0[unfolded m] k w' p by blast
qed

text \<open>
  After the storage was emptied behind the store's back, toggling an unknown id returns
  the list unchanged and writes the storage key again.
\<close>

theorem toggle_missing_id_witness:
  "reachable (fst ex_cleared) (snd ex_cleared)
   \<and> listed (fst ex_cleared) (snd ex_cleared) = Some [(Str ''a'', Str ''A'', Bool False)]
   \<and> Str ''nonexistent'' \<notin> fst ` set [(Str ''a'', Str ''A'', Bool False)]
   \<and> items (snd ex_cleared) ''k'' = None
   \<and> (\<exists>snap s' w'. toggle (fst ex_cleared) (Str ''nonexistent'') (snd ex_cleared) = Inr (snap, s', w')
         \<and> read_tasks (heap w') snap = Some [(Str ''a'', Str ''A'', Bool False)]
         \<and> items w' ''k'' \<noteq> None)"
proof -
  let ?r = "session ''k'' (page two_tasks Map.empty) [Add (Ref 0)]"
  have "\<not> isl ?r" by code_simp
  then have r0: "reachable (fst (projr ?r)) (snd (projr ?r))"
    by (rule projr_reachable)
  have eq: "fst ex_cleared = fst (projr ?r)" "snd ex_cleared = (snd (projr ?r))\<lparr>items := Map.empty\<rparr>"
    by (simp_all add: ex_cleared_def split: prod.splits)
  have "untouched (fst (projr ?r)) (snd (projr ?r)) ((snd (projr ?r))\<lparr>items := Map.empty\<rparr>)"
    using r0 by (rule same_heap_untouched) simp
  with r0 have re: "reachable (fst ex_cleared) (snd ex_cleared)"
    unfolding eq by (rule reachable.by_caller)
  have li: "listed (fst ex_cleared) (snd ex_cleared) = Some [(Str ''a'', Str ''A'', Bool False)]"
    by code_simp
  have ni: "Str ''nonexistent'' \<notin> fst ` set [(Str ''a'', Str ''A'', Bool False)]"
    by simp
  have em: "items (snd ex_cleared) ''k'' = None"
    by (simp add: eq)
  have nl: "console (snd ex_cleared) = []"
    by code_simp
  have k: "storageKey (fst ex_cleared) = ''k''"
    by code_simp
  from toggle_missing_id[OF re li ni] obtain snap s' w' where
    t: "toggle (fst ex_cleared) (Str ''nonexistent'') (snd ex_cleared) = Inr (snap, s', w')"
    and r: "read_tasks (heap w') snap = Some [(Str ''a'', Str ''A'', Bool False)]"
    and p: "(\<exists>txt. items w' = (items (snd ex_cleared))(storageKey (fst ex_cleared) \<mapsto> txt)
               \<and> console w' = console (snd ex_cleared))
         \<or> (\<exists>e. items w' = items (snd ex_cleared)
                \<and> console w' = console (snd ex_cleared) @ [LogError ''Failed to persist store:'' e])"
    by blast
  have "console (snd (snd (projr (toggle (fst ex_cleared) (Str ''nonexistent'') (snd ex_cleared))))) = []"
    by code_simp
  then have "console w' = []"
    by (simp add: t)
  with p have "items w' ''k'' \<noteq> None"
    by (auto simp: k nl)
  with re li ni em t r show ?thesis by blast
qed

text \<open>
  C8. In a reachable state whose list is \<open>ts\<close>, adding two tasks with the same id \<open>i\<close>
  gives a list with both at the end, and one \<^verbatim>\<open>remove(i)\<close> then leaves exactly the tasks
  of \<open>ts\<close> whose id is not \<open>i\<close>.
\<close>

theorem duplicate_ids:
  assumes "reachable s w" and "listed s w = Some ts"
    and "get_prop (heap w) task1 ''id'' = Inr i" and "get_prop (heap w) task1 ''title'' = Inr t1"
    and "get_prop (heap w) task1 ''done'' = Inr d1"
    and "get_prop (heap w) task2 ''id'' = Inr i" and "get_prop (heap w) task2 ''title'' = Inr t2"
    and "get_prop (heap w) task2 ''done'' = Inr d2"
  shows "\<exists>snap1 s1 w1 snap2 s2 w2 snap3 s3 w3.
      add s task1 w = Inr (snap1, s1, w1) \<and> add s1 task2 w1 = Inr (snap2, s2, w2)
      \<and> read_tasks (heap w2) snap2 = Some (ts @ [(i, t1, Bool (truthy d1)), (i, t2, Bool (truthy d2))])
      \<and> remove s2 i w2 = Inr (snap3, s3, w3)
      \<and> read_tasks (heap w3) snap3 = Some (filter (\<lambda>t. fst t \<noteq> i) ts)
      \<and> listed s3 w3 = Some (filter (\<lambda>t. fst t \<noteq> i) ts)"
proof -
  note ht = reachable_listed(1)[OF assms(1,2)]
  from add_listed[OF ht assms(3,4,5)] obtain snap1 s1 w1 hm h' where
    a1: "add s task1 w = Inr (snap1, s1, w1)"
    and h1: "holds_tasks (heap w1) (state s1) (ts @ [(i, t1, Bool (truthy d1))])"
    and w1: "w1 = (persist s1 (w\<lparr>heap := heap w @ hm\<rparr>))\<lparr>heap := heap w @ hm @ h'\<rparr>"
    by blast
  have hw1: "heap w1 = heap w @ (hm @ h')"
    by (simp add: w1)
  have g2: "get_prop (heap w1) task2 ''id'' = Inr i" "get_prop (heap w1) task2 ''title'' = Inr t2"
    "get_prop (heap w1) task2 ''done'' = Inr d2"
    unfolding hw1 using assms(6,7,8) by (auto intro: get_prop_ext)
  from add_listed[OF h1 g2] obtain snap2 s2 w2 where
    a2: "add s1 task2 w1 = Inr (snap2, s2, w2)"
    and r2: "read_tasks (heap w2) snap2 = Some ((ts @ [(i, t1, Bool (truthy d1))]) @ [(i, t2, Bool (truthy d2))])"
    and h2: "holds_tasks (heap w2) (state s2) ((ts @ [(i, t1, Bool (truthy d1))]) @ [(i, t2, Bool (truthy d2))])"
    by blast
  from remove_listed[OF h2, of i] obtain snap3 s3 w3 where
    r: "remove s2 i w2 = Inr (snap3, s3, w3)"
    and r3: "read_tasks (heap w3) snap3 = Some (filter (\<lambda>t. fst t \<noteq> i) ((ts @ [(i, t1, Bool (truthy d1))]) @ [(i, t2, Bool (truthy d2))]))"
    and h3: "holds_tasks (heap w3) (state s3) (filter (\<lambda>t. fst t \<noteq> i) ((ts @ [(i, t1, Bool (truthy d1))]) @ [(i, t2, Bool (truthy d2))]))"
    by blast
  have f: "filter (\<lambda>t. fst t \<noteq> i) ((ts @ [(i, t1, Bool (truthy d1))]) @ [(i, t2, Bool (truthy d2))])
      = filter (\<lambda>t. fst t \<noteq> i) ts"
    by simp
  show ?thesis
    using a1 a2 r2 r r3[unfolded f] listed_holds[OF h3[unfolded f]] by auto
qed

text \<open>Two tasks with id \<^verbatim>\<open>"x"\<close> on an empty store: both are listed, and both are removed.\<close>

theorem duplicate_ids_witness:
  "reachable (fst (projr ex_same_id)) (snd (projr ex_same_id))
   \<and> listed (fst (projr ex_same_id)) (snd (projr ex_same_id)) = Some []
   \<and> get_prop (heap (snd (projr ex_same_id))) (Ref 0) ''id'' = Inr (Str ''x'')
   \<and> get_prop (heap (snd (projr ex_same_id))) (Ref 1) ''id'' = Inr (Str ''x'')
   \<and> (\<exists>snap1 s1 w1 snap2 s2 w2 snap3 s3 w3.
        add (fst (projr ex_same_id)) (Ref 0) (snd (projr ex_same_id)) = Inr (snap1, s1, w1)
        \<and> add s1 (Ref 1) w1 = Inr (snap2, s2, w2)
        \<and> read_tasks (heap w2) snap2
            = Some [(Str ''x'', Str ''A'', Bool False), (Str ''x'', Str ''B'', Bool True)]
        \<and> remove s2 (Str ''x'') w2 = Inr (snap3, s3, w3)
        \<and> read_tasks (heap w3) snap3 = Some []
        \<and> listed s3 w3 = Some [])"
proof -
  have "\<not> isl ex_same_id" by code_simp
  then have re: "reachable (fst (projr ex_same_id)) (snd (projr ex_same_id))"
    unfolding ex_same_id_def by (rule projr_reachable)
  have li: "listed (fst (projr ex_same_id)) (snd (projr ex_same_id)) = Some []"
    by code_simp
  have g1: "get_prop (heap (snd (projr ex_same_id))) (Ref 0) ''id'' = Inr (Str ''x'')"
    "get_prop (heap (snd (projr ex_same_id))) (Ref 0) ''title'' = Inr (Str ''A'')"
    "get_prop (heap (snd (projr ex_same_id))) (Ref 0) ''done'' = Inr (Bool False)"
    by code_simp+
  have g2: "get_prop (heap (snd (projr ex_same_id))) (Ref 1) ''id'' = Inr (Str ''x'')"
    "get_prop (heap (snd (projr ex_same_id))) (Ref 1) ''title'' = Inr (Str ''B'')"
    "get_prop (heap (snd (projr ex_same_id))) (Ref 1) ''done'' = Inr (Bool True)"
    by code_simp+
  from duplicate_ids[OF re li g1 g2] re li g1(1) g2(1) show ?thesis
    by simp
qed

text \<open>
  C6. In a reachable state whose list is \<open>ts\<close>, each of \<^verbatim>\<open>add\<close>, \<^verbatim>\<open>toggle\<close> and \<^verbatim>\<open>remove\<close>
  returns a snapshot (no exception reaches the caller), and the snapshot and the next
  \<^verbatim>\<open>list()\<close> show the mutated collection, whatever becomes of the write. The write is
  that of the new state, on the heap \<open>heap w @ hm\<close> that holds it. When it fails with an
  exception \<open>e\<close>, be it in \<^verbatim>\<open>JSON.stringify\<close> or in \<^verbatim>\<open>setItem\<close>, the stored items are
  unchanged and exactly one entry \<^verbatim>\<open>Failed to persist store:\<close> with \<open>e\<close> is appended to the
  console; when it succeeds the items are the written ones and nothing is logged. A
  storage that cannot be accessed or refuses the key's writes makes it fail.
\<close>

theorem persist_failure_silent:
  assumes "reachable s w" and "listed s w = Some ts"
  shows "(\<forall>task i t d.
            get_prop (heap w) task ''id'' = Inr i \<and> get_prop (heap w) task ''title'' = Inr t
            \<and> get_prop (heap w) task ''done'' = Inr d \<longrightarrow>
            (\<exists>snap s' w' hm. add s task w = Inr (snap, s', w')
               \<and> read_tasks (heap w') snap = Some (ts @ [(i, t, Bool (truthy d))])
               \<and> listed s' w' = Some (ts @ [(i, t, Bool (truthy d))])
               \<and> holds_tasks (heap w @ hm) (state s') (ts @ [(i, t, Bool (truthy d))])
               \<and> storageKey s' = storageKey s
               \<and> (case write_state s' (w\<lparr>heap := heap w @ hm\<rparr>) of
                    Inl e \<Rightarrow> items w' = items w
                       \<and> console w' = console w @ [LogError ''Failed to persist store:'' e]
                  | Inr w1 \<Rightarrow> items w' = items w1 \<and> console w' = console w)
               \<and> (\<not> readable w \<or> (\<forall>v. \<not> accepts w (storageKey s) v) \<longrightarrow>
                    (\<exists>e. write_state s' (w\<lparr>heap := heap w @ hm\<rparr>) = Inl e))))
       \<and> (\<forall>id'. \<exists>snap s' w' hm. toggle s id' w = Inr (snap, s', w')
               \<and> read_tasks (heap w') snap = Some (map (toggled id') ts)
               \<and> listed s' w' = Some (map (toggled id') ts)
               \<and> holds_tasks (heap w @ hm) (state s') (map (toggled id') ts)
               \<and> storageKey s' = storageKey s
               \<and> (case write_state s' (w\<lparr>heap := heap w @ hm\<rparr>) of
                    Inl e \<Rightarrow> items w' = items w
                       \<and> console w' = console w @ [LogError ''Failed to persist store:'' e]
                  | Inr w1 \<Rightarrow> items w' = items w1 \<and> console w' = console w)
               \<and> (\<not> readable w \<or> (\<forall>v. \<not> accepts w (storageKey s) v) \<longrightarrow>
                    (\<exists>e. write_state s' (w\<lparr>heap := heap w @ hm\<rparr>) = Inl e)))
       \<and> (\<forall>id'. \<exists>snap s' w' hm. remove s id' w = Inr (snap, s', w')
               \<and> read_tasks (heap w') snap = Some (filter (\<lambda>t. fst t \<noteq> id') ts)
               \<and> listed s' w' = Some (filter (\<lambda>t. fst t \<noteq> id') ts)
               \<and> holds_tasks (heap w @ hm) (state s') (filter (\<lambda>t. fst t \<noteq> id') ts)
               \<and> storageKey s' = storageKey s
               \<and> (case write_state s' (w\<lparr>heap := heap w @ hm\<rparr>) of
                    Inl e \<Rightarrow> items w' = items w
                       \<and> console w' = console w @ [LogError ''Failed to persist store:'' e]
                  | Inr w1 \<Rightarrow> items w' = items w1 \<and> console w' = console w)
               \<and> (\<not> readable w \<or> (\<forall>v. \<not> accepts w (storageKey s) v) \<longrightarrow>
                    (\<exists>e. write_state s' (w\<lparr>heap := heap w @ hm\<rparr>) = Inl e)))"
proof (intro conjI allI impI)
  note ht = reachable_listed(1)[OF assms(1,2)]
  {
    fix task i t d
    assume g: "get_prop (heap w) task ''id'' = Inr i \<and> get_prop (heap w) task ''title'' = Inr t
            \<and> get_prop (heap w) task ''done'' = Inr d"
    from add_listed[OF ht, of task i t d] g obtain snap s' w' hm h' where
      a: "add s task w = Inr (snap, s', w')"
      and r: "read_tasks (heap w') snap = Some (ts @ [(i, t, Bool (truthy d))])"
      and h: "holds_tasks (heap w') (state s') (ts @ [(i, t, Bool (truthy d))])"
      and h0: "holds_tasks (heap w @ hm) (state s') (ts @ [(i, t, Bool (truthy d))])"
      and k: "storageKey s' = storageKey s"
      and w': "w' = (persist s' (w\<lparr>heap := heap w @ hm\<rparr>))\<lparr>heap := heap w @ hm @ h'\<rparr>"
      by blast
    from persisted_outcome[OF w' k] a r listed_holds[OF h] h0 k
    show "\<exists>snap s' w' hm. add s task w = Inr (snap, s', w')
               \<and> read_tasks (heap w') snap = Some (ts @ [(i, t, Bool (truthy d))])
               \<and> listed s' w' = Some (ts @ [(i, t, Bool (truthy d))])
               \<and> holds_tasks (heap w @ hm) (state s') (ts @ [(i, t, Bool (truthy d))])
               \<and> storageKey s' = storageKey s
               \<and> (case write_state s' (w\<lparr>heap := heap w @ hm\<rparr>) of
                    Inl e \<Rightarrow> items w' = items w
                       \<and> console w' = console w @ [LogError ''Failed to persist store:'' e]
                  | Inr w1 \<Rightarrow> items w' = items w1 \<and> console w' = console w)
               \<and> (\<not> readable w \<or> (\<forall>v. \<not> accepts w (storageKey s) v) \<longrightarrow>
                    (\<exists>e. write_state s' (w\<lparr>heap := heap w @ hm\<rparr>) = Inl e))"
      by blast
  }
  {
    fix id'
    from toggle_listed[OF ht, of id'] obtain snap s' w' hm h' where
      a: "toggle s id' w = Inr (snap, s', w')"
      and r: "read_tasks (heap w') snap = Some (map (toggled id') ts)"
      and h: "holds_tasks (heap w') (state s') (map (toggled id') ts)"
      and h0: "holds_tasks (heap w @ hm) (state s') (map (toggled id') ts)"
      and k: "storageKey s' = storageKey s"
      and w': "w' = (persist s' (w\<lparr>heap := heap w @ hm\<rparr>))\<lparr>heap := heap w @ hm @ h'\<rparr>"
      by blast
    from persisted_outcome[OF w' k] a r listed_holds[OF h] h0 k
    show "\<exists>snap s' w' hm. toggle s id' w = Inr (snap, s', w')
               \<and> read_tasks (heap w') snap = Some (map (toggled id') ts)
               \<and> listed s' w' = Some (map (toggled id') ts)
               \<and> holds_tasks (heap w @ hm) (state s') (map (toggled id') ts)
               \<and> storageKey s' = storageKey s
               \<and> (case write_state s' (w\<lparr>heap := heap w @ hm\<rparr>) of
                    Inl e \<Rightarrow> items w' = items w
                       \<and> console w' = console w @ [LogError ''Failed to persist store:'' e]
                  | Inr w1 \<Rightarrow> items w' = items w1 \<and> console w' = console w)
               \<and> (\<not> readable w \<or> (\<forall>v. \<not> accepts w (storageKey s) v) \<longrightarrow>
                    (\<exists>e. write_state s' (w\<lparr>heap := heap w @ hm\<rparr>) = Inl e))"
      by blast
  }
  {
    fix id'
    from remove_listed[OF ht, of id'] obtain snap s' w' hm h' where
      a: "remove s id' w = Inr (snap, s', w')"
      and r: "read_tasks (heap w') snap = Some (filter (\<lambda>t. fst t \<noteq> id') ts)"
      and h: "holds_tasks (heap w') (state s') (filter (\<lambda>t. fst t \<noteq> id') ts)"
      and h0: "holds_tasks (heap w @ hm) (state s') (filter (\<lambda>t. fst t \<noteq> id') ts)"
      and k: "storageKey s' = storageKey s"
      and w': "w' = (persist s' (w\<lparr>heap := heap w @ hm\<rparr>))\<lparr>heap := heap w @ hm @ h'\<rparr>"
      by blast
    from persisted_outcome[OF w' k] a r listed_holds[OF h] h0 k
    show "\<exists>snap s' w' hm. remove s id' w = Inr (snap, s', w')
               \<and> read_tasks (heap w') snap = Some (filter (\<lambda>t. fst t \<noteq> id') ts)
               \<and> listed s' w' = Some (filter (\<lambda>t. fst t \<noteq> id') ts)
               \<and> holds_tasks (heap w @ hm) (state s') (filter (\<lambda>t. fst t \<noteq> id') ts)
               \<and> storageKey s' = storageKey s
               \<and> (case write_state s' (w\<lparr>heap := heap w @ hm\<rparr>) of
                    Inl e \<Rightarrow> items w' = items w
                       \<and> console w' = console w @ [LogError ''Failed to persist store:'' e]
                  | Inr w1 \<Rightarrow> items w' = items w1 \<and> console w' = console w)
               \<and> (\<not> readable w \<or> (\<forall>v. \<not> accepts w (storageKey s) v) \<longrightarrow>
                    (\<exists>e. write_state s' (w\<lparr>heap := heap w @ hm\<rparr>) = Inl e))"
      by blast
  }
qed

text \<open>
  Adding a task to a store whose storage refuses every write, and adding a task whose
  \<^verbatim>\<open>id\<close> is cyclic to a store on a working storage: both calls return the new list, leave
  the storage as it was and log the error, a \<^verbatim>\<open>QuotaExceededError\<close> and a \<^verbatim>\<open>TypeError\<close>.
\<close>

theorem persist_failure_silent_witness:
  "reachable (fst ex_refusing) (snd ex_refusing)
   \<and> listed (fst ex_refusing) (snd ex_refusing) = Some []
   \<and> (\<forall>v. \<not> accepts (snd ex_refusing) (storageKey (fst ex_refusing)) v)
   \<and> (\<exists>snap s' w'. add (fst ex_refusing) (Ref 0) (snd ex_refusing) = Inr (snap, s', w')
         \<and> read_tasks (heap w') snap = Some [(Str ''a'', Str ''A'', Bool False)]
         \<and> listed s' w' = Some [(Str ''a'', Str ''A'', Bool False)]
         \<and> items w' = items (snd ex_refusing)
         \<and> console w' = [LogError ''Failed to persist store:'' QuotaExceededError])
   \<and> reachable (fst ex_cyclic) (snd ex_cyclic)
   \<and> listed (fst ex_cyclic) (snd ex_cyclic) = Some []
   \<and> (\<exists>snap s' w'. add (fst ex_cyclic) (Ref 0) (snd ex_cyclic) = Inr (snap, s', w')
         \<and> read_tasks (heap w') snap = Some [(Ref 0, Str ''A'', Bool False)]
         \<and> listed s' w' = Some [(Ref 0, Str ''A'', Bool False)]
         \<and> JSON_stringify (heap w') (state s') = Inl TypeError
         \<and> items w' = items (snd ex_cyclic)
         \<and> console w' = [LogError ''Failed to persist store:'' TypeError])"
proof -
  have cs: "createStore ''k'' ((page two_tasks Map.empty)\<lparr>accepts := (\<lambda>k v. False)\<rparr>)
      = (fst ex_refusing, snd ex_refusing)"
    by (simp add: ex_refusing_def)
  then have re: "reachable (fst ex_refusing) (snd ex_refusing)"
    by (rule reachable.by_create)
  have li: "listed (fst ex_refusing) (snd ex_refusing) = Some []"
    by code_simp
  have ac: "\<forall>v. \<not> accepts (snd ex_refusing) (storageKey (fst ex_refusing)) v"
    using createStore_inv(5)[OF cs] by simp
  have g: "get_prop (heap (snd ex_refusing)) (Ref 0) ''id'' = Inr (Str ''a'')
      \<and> get_prop (heap (snd ex_refusing)) (Ref 0) ''title'' = Inr (Str ''A'')
      \<and> get_prop (heap (snd ex_refusing)) (Ref 0) ''done'' = Inr (Bool False)"
    by code_simp
  from persist_failure_silent[OF re li] g ac obtain snap s' w' hm e where
    a: "add (fst ex_refusing) (Ref 0) (snd ex_refusing) = Inr (snap, s', w')"
    and r: "read_tasks (heap w') snap = Some ([] @ [(Str ''a'', Str ''A'', Bool (truthy (Bool False)))])"
    and l: "listed s' w' = Some ([] @ [(Str ''a'', Str ''A'', Bool (truthy (Bool False)))])"
    and c: "case write_state s' ((snd ex_refusing)\<lparr>heap := heap (snd ex_refusing) @ hm\<rparr>) of
                    Inl e \<Rightarrow> items w' = items (snd ex_refusing)
                       \<and> console w' = console (snd ex_refusing) @ [LogError ''Failed to persist store:'' e]
                  | Inr w1 \<Rightarrow> items w' = items w1 \<and> console w' = console (snd ex_refusing)"
    and f: "write_state s' ((snd ex_refusing)\<lparr>heap := heap (snd ex_refusing) @ hm\<rparr>) = Inl e"
    by blast
  from c f have i: "items w' = items (snd ex_refusing)"
    by simp
  have "console (snd (snd (projr (add (fst ex_refusing) (Ref 0) (snd ex_refusing)))))
      = [LogError ''Failed to persist store:'' QuotaExceededError]"
    by code_simp
  then have co: "console w' = [LogError ''Failed to persist store:'' QuotaExceededError]"
    by (simp add: a)
  have p1: "\<exists>snap s' w'. add (fst ex_refusing) (Ref 0) (snd ex_refusing) = Inr (snap, s', w')
         \<and> read_tasks (heap w') snap = Some [(Str ''a'', Str ''A'', Bool False)]
         \<and> listed s' w' = Some [(Str ''a'', Str ''A'', Bool False)]
         \<and> items w' = items (snd ex_refusing)
         \<and> console w' = [LogError ''Failed to persist store:'' QuotaExceededError]"
    using a r l i co by auto
  have cs2: "createStore ''k''
       (page [Object [(''id'', Ref 0), (''title'', Str ''A''), (''done'', Bool False)]] Map.empty)
      = (fst ex_cyclic, snd ex_cyclic)"
    by (simp add: ex_cyclic_def)
  then have re2: "reachable (fst ex_cyclic) (snd ex_cyclic)"
    by (rule reachable.by_create)
  have li2: "listed (fst ex_cyclic) (snd ex_cyclic) = Some []"
    by code_simp
  have g2: "get_prop (heap (snd ex_cyclic)) (Ref 0) ''id'' = Inr (Ref 0)
      \<and> get_prop (heap (snd ex_cyclic)) (Ref 0) ''title'' = Inr (Str ''A'')
      \<and> get_prop (heap (snd ex_cyclic)) (Ref 0) ''done'' = Inr (Bool False)"
    by code_simp
  from persist_failure_silent[OF re2 li2] g2 obtain snap2 s2 w2 hm2 where
    a2: "add (fst ex_cyclic) (Ref 0) (snd ex_cyclic) = Inr (snap2, s2, w2)"
    and r2: "read_tasks (heap w2) snap2 = Some ([] @ [(Ref 0, Str ''A'', Bool (truthy (Bool False)))])"
    and l2: "listed s2 w2 = Some ([] @ [(Ref 0, Str ''A'', Bool (truthy (Bool False)))])"
    and c2: "case write_state s2 ((snd ex_cyclic)\<lparr>heap := heap (snd ex_cyclic) @ hm2\<rparr>) of
                    Inl e \<Rightarrow> items w2 = items (snd ex_cyclic)
                       \<and> console w2 = console (snd ex_cyclic) @ [LogError ''Failed to persist store:'' e]
                  | Inr w1 \<Rightarrow> items w2 = items w1 \<and> console w2 = console (snd ex_cyclic)"
    by blast
  have nl2: "console (snd ex_cyclic) = []"
    by code_simp
  have "JSON_stringify (heap (snd (snd (projr (add (fst ex_cyclic) (Ref 0) (snd ex_cyclic))))))
          (state (fst (snd (projr (add (fst ex_cyclic) (Ref 0) (snd ex_cyclic)))))) = Inl TypeError"
    by code_simp
  then have j2: "JSON_stringify (heap w2) (state s2) = Inl TypeError"
    by (simp add: a2)
  have "console (snd (snd (projr (add (fst ex_cyclic) (Ref 0) (snd ex_cyclic)))))
      = [LogError ''Failed to persist store:'' TypeError]"
    by code_simp
  then have co2: "console w2 = [LogError ''Failed to persist store:'' TypeError]"
    by (simp add: a2)
  from c2 co2 nl2 have i2: "items w2 = items (snd ex_cyclic)"
    by (auto split: sum.splits)
  have p2: "\<exists>snap s' w'. add (fst ex_cyclic) (Ref 0) (snd ex_cyclic) = Inr (snap, s', w')
         \<and> read_tasks (heap w') snap = Some [(Ref 0, Str ''A'', Bool False)]
         \<and> listed s' w' = Some [(Ref 0, Str ''A'', Bool False)]
         \<and> JSON_stringify (heap w') (state s') = Inl TypeError
         \<and> items w' = items (snd ex_cyclic)
         \<and> console w' = [LogError ''Failed to persist store:'' TypeError]"
    using a2 r2 l2 j2 i2 co2 by auto
  from re li ac p1 re2 li2 p2 show ?thesis by blast
qed

section \<open>Hydration, case by case\<close>

lemma map_of_set_prop: "map_of (set_prop k v ps) = (map_of ps)(k \<mapsto> v)"
  by (induction ps) (auto simp: fun_eq_iff)

lemma map_of_foldl_set_prop:
  "map_of (foldl (\<lambda>acc p. set_prop (fst p) (snd p) acc) acc ps) = map_of acc ++ map_of (rev ps)"
proof (induction ps arbitrary: acc)
  case Nil
  then show ?case by simp
next
  case (Cons p ps)
  have "map_of (set_prop (fst p) (snd p) acc) ++ map_of (rev ps)
      = map_of acc ++ (map_of (rev ps @ [p]))"
    by (cases p) (auto simp: map_of_set_prop fun_eq_iff map_add_def split: option.splits)
  then show ?case
    by (simp add: Cons.IH)
qed

lemma map_of_make_props: "map_of (make_props ps) = map_of (rev ps)"
  by (simp add: make_props_def map_of_foldl_set_prop)

lemma map_of_related:
  assumes "list_all2 (\<lambda>m p. fst p = fst m \<and> as_stored (snd m) (snd p)) ms ps"
  shows "rel_option as_stored (map_of ms k) (map_of ps k)"
  using assms by (induction ms ps rule: list_all2_induct) auto

lemma materialize_as_stored: "materialize j h = (v, h') \<Longrightarrow> as_stored j v"
  by (cases j) (auto simp: as_stored_def alloc_def split: prod.splits)

lemma materialize_props_related:
  "materialize_props ms h = (ps, h') \<Longrightarrow>
     list_all2 (\<lambda>m p. fst p = fst m \<and> as_stored (snd m) (snd p)) ms ps"
proof (induction ms arbitrary: h ps h')
  case Nil
  then show ?case by simp
next
  case (Cons m ms)
  obtain x h1 where x: "materialize (snd m) h = (x, h1)" by (cases "materialize (snd m) h")
  obtain ps' h2 where ps': "materialize_props ms h1 = (ps', h2)"
    by (cases "materialize_props ms h1")
  from Cons.prems x ps' have "ps = (fst m, x) # ps'" by simp
  then show ?case
    using Cons.IH[OF ps'] materialize_as_stored[OF x] by simp
qed

lemma truthy_as_stored: "as_stored j v \<Longrightarrow> truthy v = stored_truthy (Some j)"
  by (cases j) (auto simp: as_stored_def)

lemma get_prop_materialized:
  assumes m: "materialize j h = (x, h1)" and nn: "j \<noteq> JNull"
  shows "\<exists>y. get_prop (h1 @ e) x k = Inr y \<and> kept_as_is (stored_prop j k) y
            \<and> truthy y = stored_truthy (stored_prop j k)"
proof (cases j)
  case JNull
  with nn show ?thesis by simp
next
  case (JBool b)
  with m show ?thesis by (auto simp: kept_as_is_def stored_prop_def)
next
  case (JNum q)
  with m show ?thesis by (auto simp: kept_as_is_def stored_prop_def)
next
  case (JStr s)
  with m show ?thesis by (auto simp: kept_as_is_def stored_prop_def)
next
  case (JArr vs)
  with m show ?thesis
    by (auto simp: kept_as_is_def stored_prop_def alloc_def nth_append split: prod.splits)
next
  case (JObj ms)
  obtain ps h0 where ps: "materialize_props ms h = (ps, h0)"
    by (cases "materialize_props ms h")
  with m JObj have x: "x = Ref (length h0)" and h1: "h1 = h0 @ [Object (make_props ps)]"
    by (auto simp: alloc_def)
  have g: "get_prop (h1 @ e) x k
      = Inr (case map_of (rev ps) k of Some v \<Rightarrow> v | None \<Rightarrow> Undefined)"
    by (simp add: x h1 nth_append map_of_make_props)
  have "list_all2 (\<lambda>m p. fst p = fst m \<and> as_stored (snd m) (snd p)) (rev ms) (rev ps)"
    using materialize_props_related[OF ps] by (simp add: list_all2_rev)
  then have r: "rel_option as_stored (map_of (rev ms) k) (map_of (rev ps) k)"
    by (rule map_of_related)
  show ?thesis
  proof (cases "map_of (rev ms) k")
    case None
    with r have "map_of (rev ps) k = None" by (cases "map_of (rev ps) k") auto
    with None g JObj show ?thesis
      by (simp add: kept_as_is_def stored_prop_def)
  next
    case (Some j')
    with r obtain v where v: "map_of (rev ps) k = Some v" and a: "as_stored j' v"
      by (cases "map_of (rev ps) k") auto
    with Some g JObj truthy_as_stored[OF a] show ?thesis
      by (simp add: kept_as_is_def stored_prop_def)
  qed
qed

lemma materialize_list_elems:
  "materialize_list vs h = (xs, h') \<Longrightarrow>
     list_all2 (\<lambda>j x. \<exists>h0 h1 e. materialize j h0 = (x, h1) \<and> h' = h1 @ e) vs xs"
proof (induction vs arbitrary: h xs h')
  case Nil
  then show ?case by simp
next
  case (Cons v vs)
  obtain x h1 where x: "materialize v h = (x, h1)" by (cases "materialize v h")
  obtain xs' h2 where xs': "materialize_list vs h1 = (xs', h2)"
    by (cases "materialize_list vs h1")
  from Cons.prems x xs' have eq: "xs = x # xs'" "h' = h2" by simp_all
  from materialize_ext(2)[of vs h1] xs' obtain e where "h2 = h1 @ e" by auto
  with x have "\<exists>h0 h1 e. materialize v h0 = (x, h1) \<and> h' = h1 @ e"
    using eq by blast
  then show ?case
    using Cons.IH[OF xs'] eq by simp
qed

lemma map_cb_hydrate_items:
  assumes "list_all2 (\<lambda>j x. j \<noteq> JNull \<and> (\<exists>h0 h1 e. materialize j h0 = (x, h1) \<and> h = h1 @ e)) vs xs"
  shows "\<exists>ts. map_cb hydrate_item h xs
                = Inr (map Ref [length h ..< length h + length ts], h @ map (\<lambda>t. Object (fields t)) ts)
            \<and> list_all2 hydrated_from vs ts"
  using assms
proof (induction vs arbitrary: xs h)
  case Nil
  then show ?case by simp
next
  case (Cons j vs)
  from Cons.prems obtain x xs' where xs: "xs = x # xs'" and nn: "j \<noteq> JNull"
    and mx: "\<exists>h0 h1 e. materialize j h0 = (x, h1) \<and> h = h1 @ e"
    and rest: "list_all2 (\<lambda>j x. j \<noteq> JNull \<and> (\<exists>h0 h1 e. materialize j h0 = (x, h1) \<and> h = h1 @ e)) vs xs'"
    unfolding list_all2_Cons1 by blast
  from mx obtain h0 h1 e where m: "materialize j h0 = (x, h1)" and h: "h = h1 @ e" by blast
  from get_prop_materialized[OF m nn, of e] obtain i where
    i: "get_prop h x ''id'' = Inr i" "kept_as_is (stored_prop j ''id'') i"
    unfolding h by blast
  from get_prop_materialized[OF m nn, of e] obtain t where
    t: "get_prop h x ''title'' = Inr t" "kept_as_is (stored_prop j ''title'') t"
    unfolding h by blast
  from get_prop_materialized[OF m nn, of e] obtain d where
    d: "get_prop h x ''done'' = Inr d" "truthy d = stored_truthy (stored_prop j ''done'')"
    unfolding h by blast
  let ?t = "(i, t, Bool (truthy d))"
  have hi: "hydrate_item h x = Inr (Ref (length h), h @ [Object (fields ?t)])"
    by (simp add: hydrate_item_def i t d task_literal_fields)
  have hf: "hydrated_from j ?t"
    by (simp add: hydrated_from_def i t d)
  have "list_all2 (\<lambda>j x. j \<noteq> JNull
      \<and> (\<exists>h0 h1 e. materialize j h0 = (x, h1) \<and> h @ [Object (fields ?t)] = h1 @ e)) vs xs'"
    using rest by (rule list_all2_mono) (metis append.assoc)
  from Cons.IH[OF this] obtain ts where
    ih: "map_cb hydrate_item (h @ [Object (fields ?t)]) xs'
          = Inr (map Ref [Suc (length h) ..< Suc (length h) + length ts],
                 (h @ [Object (fields ?t)]) @ map (\<lambda>t. Object (fields t)) ts)"
    and rel: "list_all2 hydrated_from vs ts"
    by auto
  have up: "[length h ..< length h + length (?t # ts)]
      = length h # [Suc (length h) ..< Suc (length h) + length ts]"
    by (simp add: upt_conv_Cons del: upt_Suc)
  have "map_cb hydrate_item h xs
      = Inr (map Ref [length h ..< length h + length (?t # ts)],
             h @ map (\<lambda>t. Object (fields t)) (?t # ts))"
    unfolding up by (simp add: xs hi ih)
  with rel hf show ?case
    by (intro exI[of _ "?t # ts"]) simp
qed

lemma get_prop_throws: "get_prop h v k = Inl e \<Longrightarrow> e = TypeError"
  by (cases v) (auto split: if_splits obj.splits)

lemma hydrate_item_throws: "hydrate_item h x = Inl e \<Longrightarrow> e = TypeError"
  unfolding hydrate_item_def
  by (cases "get_prop h x ''id''"; cases "get_prop h x ''title''"; cases "get_prop h x ''done''")
     (auto dest: get_prop_throws)

lemma map_cb_hydrate_null:
  "Null \<in> set xs \<Longrightarrow> map_cb hydrate_item h xs = Inl TypeError"
proof (induction xs arbitrary: h)
  case Nil
  then show ?case by simp
next
  case (Cons x xs)
  show ?case
  proof (cases "hydrate_item h x")
    case (Inl e)
    with hydrate_item_throws[OF Inl] show ?thesis by simp
  next
    case (Inr r)
    obtain y h1 where r: "r = (y, h1)" by (cases r)
    have "x \<noteq> Null"
      using Inr by (auto simp: hydrate_item_def)
    with Cons.prems have "Null \<in> set xs" by simp
    from Cons.IH[OF this, of h1] show ?thesis
      by (simp add: Inr r)
  qed
qed

lemma materialize_list_null:
  "JNull \<in> set vs \<Longrightarrow> Null \<in> set (fst (materialize_list vs h))"
proof (induction vs arbitrary: h)
  case Nil
  then show ?case by simp
next
  case (Cons v vs)
  obtain x h1 where x: "materialize v h = (x, h1)" by (cases "materialize v h")
  obtain xs h2 where xs: "materialize_list vs h1 = (xs, h2)" by (cases "materialize_list vs h1")
  show ?case
  proof (cases "v = JNull")
    case True
    with x xs show ?thesis by simp
  next
    case False
    with Cons.prems have "JNull \<in> set vs" by simp
    from Cons.IH[OF this, of h1] xs x show ?thesis by simp
  qed
qed

lemma hydrate_unreadable:
  "\<not> readable w \<Longrightarrow> hydrate key w st = Inl SecurityError"
  by (simp add: hydrate_def getItem_def)

lemma hydrate_absent:
  "readable w \<Longrightarrow> items w key = None \<or> items w key = Some [] \<Longrightarrow> hydrate key w st = Inr (st, heap w)"
  by (auto simp: hydrate_def getItem_def)

lemma hydrate_unparsable:
  "readable w \<Longrightarrow> items w key = Some raw \<Longrightarrow> raw \<noteq> [] \<Longrightarrow> JSON_parse_tree raw = None
     \<Longrightarrow> hydrate key w st = Inl SyntaxError"
  by (simp add: hydrate_def getItem_def JSON_parse_def to_text_def)

lemma hydrate_not_array:
  assumes "readable w" "items w key = Some raw" "raw \<noteq> []" "JSON_parse_tree raw = Some j"
    and "\<forall>vs. j \<noteq> JArr vs"
  shows "\<exists>e. hydrate key w st = Inr (st, heap w @ e)"
proof -
  obtain v h1 where m: "materialize j (heap w) = (v, h1)" by (cases "materialize j (heap w)")
  from materialize_isArray[of j "heap w"] m assms(5) have na: "\<not> isArray h1 v" by simp
  from materialize_ext(1)[of j "heap w"] m obtain e where "h1 = heap w @ e" by auto
  with m na assms(1-4) show ?thesis
    by (auto simp: hydrate_def getItem_def JSON_parse_def to_text_def)
qed

lemma hydrate_array:
  assumes "readable w" "items w key = Some raw" "raw \<noteq> []" "JSON_parse_tree raw = Some (JArr vs)"
  shows "(JNull \<in> set vs \<longrightarrow> hydrate key w st = Inl TypeError)
       \<and> (JNull \<notin> set vs \<longrightarrow> (\<exists>st1 h1 ts. hydrate key w st = Inr (st1, h1)
              \<and> holds_tasks h1 st1 ts \<and> list_all2 hydrated_from vs ts))"
proof -
  obtain xs hp where ml: "materialize_list vs (heap w) = (xs, hp)"
    by (cases "materialize_list vs (heap w)")
  let ?hp = "hp @ [Array xs]"
  have m: "materialize (JArr vs) (heap w) = (Ref (length hp), ?hp)"
    by (simp add: ml alloc_def)
  have ia: "isArray ?hp (Ref (length hp))"
    by (simp add: isArray_def)
  have hy: "hydrate key w st = Array_map hydrate_item ?hp (Ref (length hp))"
    using assms m ia by (simp add: hydrate_def getItem_def JSON_parse_def to_text_def)
  have am: "Array_map hydrate_item ?hp (Ref (length hp))
      = andThen (map_cb hydrate_item ?hp xs) (\<lambda>(ys, h1). Inr (alloc h1 (Array ys)))"
    by (simp add: Array_map_def)
  show ?thesis
  proof (intro conjI impI)
    assume "JNull \<in> set vs"
    from materialize_list_null[OF this, of "heap w"] ml have "Null \<in> set xs" by simp
    from map_cb_hydrate_null[OF this] show "hydrate key w st = Inl TypeError"
      by (simp add: hy am)
  next
    assume nn: "JNull \<notin> set vs"
    have "list_all2 (\<lambda>j x. \<exists>h0 h1 e. materialize j h0 = (x, h1) \<and> ?hp = h1 @ e) vs xs"
      using materialize_list_elems[OF ml] by (rule list_all2_mono) (metis append.assoc)
    then have "list_all2 (\<lambda>j x. j \<noteq> JNull \<and> (\<exists>h0 h1 e. materialize j h0 = (x, h1) \<and> ?hp = h1 @ e)) vs xs"
      by (rule list.rel_mono_strong) (use nn in auto)
    from map_cb_hydrate_items[OF this] obtain ts where
      mc: "map_cb hydrate_item ?hp xs
            = Inr (map Ref [length ?hp ..< length ?hp + length ts], ?hp @ map (\<lambda>t. Object (fields t)) ts)"
      and rel: "list_all2 hydrated_from vs ts"
      by blast
    let ?refs = "map Ref [length ?hp ..< length ?hp + length ts]"
    let ?h1 = "?hp @ map (\<lambda>t. Object (fields t)) ts @ [Array ?refs]"
    have r: "hydrate key w st = Inr (Ref (length ?hp + length ts), ?h1)"
      by (simp add: hy am mc alloc_def)
    have el: "elems ?h1 (Ref (length ?hp + length ts)) = Inr ?refs"
      by (simp add: elems_def nth_append)
    have "list_all2 (holds_task ?h1) ?refs ts"
      by (rule fresh_records_hold)
    with el have "holds_tasks ?h1 (Ref (length ?hp + length ts)) ts"
      by (simp add: holds_tasks_def)
    with r rel show "\<exists>st1 h1 ts. hydrate key w st = Inr (st1, h1)
              \<and> holds_tasks h1 st1 ts \<and> list_all2 hydrated_from vs ts"
      by blast
  qed
qed

lemma createStore_caught:
  assumes "hydrate key (w\<lparr>heap := heap w @ [Array []]\<rparr>) (Ref (length (heap w))) = Inl e"
    and "createStore key w = (s, w')"
  shows "listed s w' = Some []"
    and "console w' = console w @ [LogWarn ''Failed to hydrate store:'' e]"
proof -
  from assms have st: "state s = Ref (Suc (length (heap w)))"
    and hp: "heap w' = (heap w @ [Array []]) @ [Array []] @ []"
    and "console w' = console w @ [LogWarn ''Failed to hydrate store:'' e]"
    by (auto simp: createStore_def alloc_def)
  then show "console w' = console w @ [LogWarn ''Failed to hydrate store:'' e]" by simp
  have "holds_tasks (heap w') (state s) []"
    unfolding hp st using holds_empty[of "heap w @ [Array []]" "[]"] by simp
  then show "listed s w' = Some []" by (rule listed_holds)
qed

lemma createStore_hydrated:
  assumes "hydrate key (w\<lparr>heap := heap w @ [Array []]\<rparr>) (Ref (length (heap w))) = Inr (st1, h1)"
    and "createStore key w = (s, w')"
  shows "state s = st1" and "heap w' = h1" and "console w' = console w"
  using assms by (auto simp: createStore_def alloc_def)

section \<open>Properties of hydration\<close>

text \<open>
  C4, as the code has it. \<^verbatim>\<open>createStore\<close> always returns a store whose \<^verbatim>\<open>list()\<close>
  works: every exception of the hydration is caught. When reading the storage throws, when
  the stored text does not parse, or when the stored array has a \<^verbatim>\<open>null\<close> element (whose
  \<^verbatim>\<open>id\<close> cannot be read), the collection is empty and one warning \<^verbatim>\<open>Failed to hydrate
  store:\<close> is logged. When the key is absent or holds the empty string, and when the text
  parses to something that is not an array, the collection is empty and nothing is
  logged: the warning is only in the \<^verbatim>\<open>catch\<close> block, and \<^verbatim>\<open>Array.isArray\<close> being false
  throws nothing.
\<close>

theorem hydration_recovery:
  assumes "createStore key w = (s, w')"
  shows "(\<exists>ts. listed s w' = Some ts)
   \<and> (\<not> readable w \<longrightarrow>
        listed s w' = Some []
        \<and> console w' = console w @ [LogWarn ''Failed to hydrate store:'' SecurityError])
   \<and> (readable w \<and> (items w key = None \<or> items w key = Some []) \<longrightarrow>
        listed s w' = Some [] \<and> console w' = console w)
   \<and> (\<forall>raw. readable w \<and> items w key = Some raw \<and> raw \<noteq> [] \<longrightarrow>
          (JSON_parse_tree raw = None \<longrightarrow>
             listed s w' = Some []
             \<and> console w' = console w @ [LogWarn ''Failed to hydrate store:'' SyntaxError])
        \<and> (\<forall>vs. JSON_parse_tree raw = Some (JArr vs) \<and> JNull \<in> set vs \<longrightarrow>
             listed s w' = Some []
             \<and> console w' = console w @ [LogWarn ''Failed to hydrate store:'' TypeError])
        \<and> (\<forall>j. JSON_parse_tree raw = Some j \<and> (\<forall>vs. j \<noteq> JArr vs) \<longrightarrow>
             listed s w' = Some [] \<and> console w' = console w))"
proof -
  let ?w0 = "w\<lparr>heap := heap w @ [Array []]\<rparr>"
  let ?st0 = "Ref (length (heap w))"
  have e0: "holds_tasks (heap ?w0 @ e) ?st0 []" for e
    using holds_empty[of "heap w" e] by simp
  have any: "\<exists>ts. listed s w' = Some ts"
    using createStore_inv(1)[OF assms] listed_holds by (auto simp: store_inv_def)
  have unread: "listed s w' = Some []
      \<and> console w' = console w @ [LogWarn ''Failed to hydrate store:'' SecurityError]"
    if "\<not> readable w"
  proof -
    have "hydrate key ?w0 ?st0 = Inl SecurityError"
      using that by (simp add: hydrate_unreadable)
    from createStore_caught[OF this assms] show ?thesis by simp
  qed
  have absent: "listed s w' = Some [] \<and> console w' = console w"
    if "readable w \<and> (items w key = None \<or> items w key = Some [])"
  proof -
    have "hydrate key ?w0 ?st0 = Inr (?st0, heap ?w0)"
      using that by (intro hydrate_absent) auto
    from createStore_hydrated[OF this assms] e0[of "[]"] listed_holds[of w' s "[]"]
    show ?thesis by simp
  qed
  have unparsable: "listed s w' = Some []
      \<and> console w' = console w @ [LogWarn ''Failed to hydrate store:'' SyntaxError]"
    if "readable w \<and> items w key = Some raw \<and> raw \<noteq> []" "JSON_parse_tree raw = None" for raw
  proof -
    have "hydrate key ?w0 ?st0 = Inl SyntaxError"
      using that by (intro hydrate_unparsable[of _ _ raw]) auto
    from createStore_caught[OF this assms] show ?thesis by simp
  qed
  have with_null: "listed s w' = Some []
      \<and> console w' = console w @ [LogWarn ''Failed to hydrate store:'' TypeError]"
    if "readable w \<and> items w key = Some raw \<and> raw \<noteq> []"
      "JSON_parse_tree raw = Some (JArr vs) \<and> JNull \<in> set vs" for raw vs
  proof -
    have "hydrate key ?w0 ?st0 = Inl TypeError"
      using hydrate_array[of ?w0 key raw vs ?st0] that by simp
    from createStore_caught[OF this assms] show ?thesis by simp
  qed
  have not_array: "listed s w' = Some [] \<and> console w' = console w"
    if "readable w \<and> items w key = Some raw \<and> raw \<noteq> []"
      "JSON_parse_tree raw = Some j \<and> (\<forall>vs. j \<noteq> JArr vs)" for raw j
  proof -
    from hydrate_not_array[of ?w0 key raw j ?st0] that obtain e where
      "hydrate key ?w0 ?st0 = Inr (?st0, heap ?w0 @ e)" by auto
    from createStore_hydrated[OF this assms] e0[of e] listed_holds[of w' s "[]"]
    show ?thesis by simp
  qed
  show ?thesis
    using any unread absent unparsable with_null not_array by blast
qed

text \<open>Unparsable text, and a storage that cannot be read: empty collection, one warning.\<close>

theorem hydration_recovery_witness:
  "JSON_parse_tree ''not json'' = None
   \<and> listed (fst (createStore ''k'' (page [] [''k'' \<mapsto> ''not json''])))
            (snd (createStore ''k'' (page [] [''k'' \<mapsto> ''not json'']))) = Some []
   \<and> console (snd (createStore ''k'' (page [] [''k'' \<mapsto> ''not json''])))
       = [LogWarn ''Failed to hydrate store:'' SyntaxError]
   \<and> listed (fst (createStore ''k'' ((page [] [''k'' \<mapsto> ''[]''])\<lparr>readable := False\<rparr>)))
            (snd (createStore ''k'' ((page [] [''k'' \<mapsto> ''[]''])\<lparr>readable := False\<rparr>))) = Some []
   \<and> console (snd (createStore ''k'' ((page [] [''k'' \<mapsto> ''[]''])\<lparr>readable := False\<rparr>)))
       = [LogWarn ''Failed to hydrate store:'' SecurityError]"
proof -
  have p: "JSON_parse_tree ''not json'' = None" by code_simp
  have c1: "createStore ''k'' (page [] [''k'' \<mapsto> ''not json''])
      = (fst (createStore ''k'' (page [] [''k'' \<mapsto> ''not json''])),
         snd (createStore ''k'' (page [] [''k'' \<mapsto> ''not json''])))"
    by simp
  have c2: "createStore ''k'' ((page [] [''k'' \<mapsto> ''[]''])\<lparr>readable := False\<rparr>)
      = (fst (createStore ''k'' ((page [] [''k'' \<mapsto> ''[]''])\<lparr>readable := False\<rparr>)),
         snd (createStore ''k'' ((page [] [''k'' \<mapsto> ''[]''])\<lparr>readable := False\<rparr>)))"
    by simp
  show ?thesis
    using hydration_recovery[OF c1] hydration_recovery[OF c2] p
    by (simp add: page_def)
qed

text \<open>
  The stored text \<^verbatim>\<open>42\<close> parses to a number: the store is empty and the console stays
  empty, so no warning is logged for a value that is not an array.
\<close>

theorem hydration_not_array_counterexample:
  "JSON_parse_tree ''42'' = Some (JNum 42)
   \<and> listed (fst (createStore ''k'' (page [] [''k'' \<mapsto> ''42''])))
            (snd (createStore ''k'' (page [] [''k'' \<mapsto> ''42'']))) = Some []
   \<and> console (snd (createStore ''k'' (page [] [''k'' \<mapsto> ''42'']))) = []"
  by code_simp

text \<open>
  C9, as the code has it. When the stored text parses to an array with no \<^verbatim>\<open>null\<close>
  element, hydration makes one record per element, in order, discarding none. Each record
  has \<^verbatim>\<open>done\<close> coerced to the boolean \<^verbatim>\<open>!!item.done\<close>, and \<^verbatim>\<open>id\<close> and \<^verbatim>\<open>title\<close>
  exactly as stored, whatever their type: the same number, string, boolean or \<^verbatim>\<open>null\<close>,
  a reference for an array or object, and \<^verbatim>\<open>undefined\<close> when the entry has no such
  property or is not an object. Nothing is logged.
\<close>

theorem hydration_keeps_fields:
  assumes "createStore key w = (s, w')"
    and "readable w" and "items w key = Some raw" and "raw \<noteq> []"
    and "JSON_parse_tree raw = Some (JArr vs)" and "JNull \<notin> set vs"
  shows "\<exists>ts. listed s w' = Some ts \<and> length ts = length vs \<and> list_all2 hydrated_from vs ts
           \<and> console w' = console w"
proof -
  let ?w0 = "w\<lparr>heap := heap w @ [Array []]\<rparr>"
  let ?st0 = "Ref (length (heap w))"
  from hydrate_array[of ?w0 key raw vs ?st0] assms(2-6) obtain st1 h1 ts where
    hy: "hydrate key ?w0 ?st0 = Inr (st1, h1)"
    and ht: "holds_tasks h1 st1 ts" and rel: "list_all2 hydrated_from vs ts"
    by auto
  from createStore_hydrated[OF hy assms(1)] ht have "holds_tasks (heap w') (state s) ts"
    and c: "console w' = console w"
    by simp_all
  from listed_holds[OF this(1)] rel c list_all2_lengthD[OF rel] show ?thesis
    by auto
qed

text \<open>
  \<^verbatim>\<open>[{"id":"a","title":"A","done":"yes"},{"title":"B"}]\<close>: \<^verbatim>\<open>done\<close> becomes \<^verbatim>\<open>true\<close>
  and \<^verbatim>\<open>false\<close>, the missing \<^verbatim>\<open>id\<close> stays \<^verbatim>\<open>undefined\<close>.
\<close>

theorem hydration_keeps_fields_witness:
  "JSON_parse_tree (''[{'' @ quote ''id'' @ '':'' @ quote ''a'' @ '','' @ quote ''title'' @ '':''
        @ quote ''A'' @ '','' @ quote ''done'' @ '':'' @ quote ''yes'' @ ''},{'' @ quote ''title''
        @ '':'' @ quote ''B'' @ ''}]'')
     = Some (JArr [JObj [(''id'', JStr ''a''), (''title'', JStr ''A''), (''done'', JStr ''yes'')],
                   JObj [(''title'', JStr ''B'')]])
   \<and> (\<exists>ts. listed
        (fst (createStore ''k'' (page [] [''k'' \<mapsto> ''[{'' @ quote ''id'' @ '':'' @ quote ''a'' @ '',''
           @ quote ''title'' @ '':'' @ quote ''A'' @ '','' @ quote ''done'' @ '':'' @ quote ''yes''
           @ ''},{'' @ quote ''title'' @ '':'' @ quote ''B'' @ ''}]''])))
        (snd (createStore ''k'' (page [] [''k'' \<mapsto> ''[{'' @ quote ''id'' @ '':'' @ quote ''a'' @ '',''
           @ quote ''title'' @ '':'' @ quote ''A'' @ '','' @ quote ''done'' @ '':'' @ quote ''yes''
           @ ''},{'' @ quote ''title'' @ '':'' @ quote ''B'' @ ''}]''])))
        = Some ts
      \<and> ts = [(Str ''a'', Str ''A'', Bool True), (Undefined, Str ''B'', Bool False)])"
proof -
  let ?raw = "''[{'' @ quote ''id'' @ '':'' @ quote ''a'' @ '','' @ quote ''title'' @ '':''
        @ quote ''A'' @ '','' @ quote ''done'' @ '':'' @ quote ''yes'' @ ''},{'' @ quote ''title''
        @ '':'' @ quote ''B'' @ ''}]''"
  let ?vs = "[JObj [(''id'', JStr ''a''), (''title'', JStr ''A''), (''done'', JStr ''yes'')],
                   JObj [(''title'', JStr ''B'')]]"
  let ?w = "page [] [''k'' \<mapsto> ?raw]"
  have p: "JSON_parse_tree ?raw = Some (JArr ?vs)" by code_simp
  have ne: "?raw \<noteq> []" by simp
  have c: "createStore ''k'' ?w = (fst (createStore ''k'' ?w), snd (createStore ''k'' ?w))"
    by simp
  have r: "readable ?w" "items ?w ''k'' = Some ?raw"
    by (simp_all add: page_def)
  have nn: "JNull \<notin> set ?vs" by simp
  from hydration_keeps_fields[OF c r ne p nn] obtain ts where
    l: "listed (fst (createStore ''k'' ?w)) (snd (createStore ''k'' ?w)) = Some ts"
    and rel: "list_all2 hydrated_from ?vs ts"
    by blast
  from rel have "ts = [(Str ''a'', Str ''A'', Bool True), (Undefined, Str ''B'', Bool False)]"
    by (auto simp: list_all2_Cons1 hydrated_from_def kept_as_is_def stored_prop_def as_stored_def)
  with l p show ?thesis by blast
qed

text \<open>
  \<^verbatim>\<open>[{"id":5,"title":null,"done":1},7]\<close>: the hydrated records have a number and
  \<^verbatim>\<open>null\<close> where the Task shape has strings, and the entry \<^verbatim>\<open>7\<close> is kept as a record
  with no id and no title.
\<close>

theorem hydration_not_task_shaped_counterexample:
  "listed
     (fst (createStore ''k'' (page [] [''k'' \<mapsto> ''[{'' @ quote ''id'' @ '':5,'' @ quote ''title''
        @ '':null,'' @ quote ''done'' @ '':1},7]''])))
     (snd (createStore ''k'' (page [] [''k'' \<mapsto> ''[{'' @ quote ''id'' @ '':5,'' @ quote ''title''
        @ '':null,'' @ quote ''done'' @ '':1},7]''])))
   = Some [(Number 5, Null, Bool True), (Undefined, Undefined, Bool False)]"
  by code_simp

section \<open>Snapshots\<close>

lemma list_fresh:
  assumes ht: "holds_tasks (heap w) (state s) ts" and l: "list s w = Inr (snap, w1)"
  shows "\<exists>h'. heap w1 = heap w @ h'" and "\<forall>a \<in> owned (heap w1) snap. length (heap w) \<le> a"
    and "holds_tasks (heap w1) snap ts"
proof -
  let ?h = "heap w"
  from ht obtain xs where xs: "elems ?h (state s) = Inr xs"
    and all: "list_all2 (holds_task ?h) xs ts"
    by (auto simp: holds_tasks_def split: sum.splits)
  let ?recs = "map (\<lambda>t. Object (fields t)) ts"
  let ?refs = "map Ref [length ?h ..< length ?h + length ts]"
  have m: "map_cb copy_item ?h xs = Inr (?refs, ?h @ ?recs)"
    using map_cb_records[OF copy_item_cb all] by simp
  from l have sn: "snap = Ref (length ?h + length ts)"
    and w1: "heap w1 = ?h @ (?recs @ [Array ?refs])"
    by (auto simp: list_def Array_map_def xs m alloc_def)
  show "\<exists>h'. heap w1 = heap w @ h'"
    using w1 by blast
  have el: "elems (heap w1) snap = Inr ?refs"
    by (simp add: sn w1 elems_def nth_append)
  show "\<forall>a \<in> owned (heap w1) snap. length (heap w) \<le> a"
    using el by (auto simp: owned_def sn set_refs_of)
  have "list_all2 (holds_task (?h @ map (\<lambda>t. Object (fields t)) ts @ [Array ?refs])) ?refs ts"
    by (rule fresh_records_hold)
  with el show "holds_tasks (heap w1) snap ts"
    by (simp add: holds_tasks_def w1)
qed

lemma owned_ext:
  assumes "holds_tasks h st ts"
  shows "owned (h @ e) st = owned h st"
proof -
  from assms obtain xs where "elems h st = Inr xs"
    by (auto simp: holds_tasks_def split: sum.splits)
  with elems_ext[OF this, of e] show ?thesis
    by (cases st) (simp_all add: owned_def)
qed

text \<open>
  C5, as the code has it. \<^verbatim>\<open>list()\<close> returns a new array of new record objects. Whatever
  the caller then does to that array and to those records (and to any object other than
  the closure's own), the store's state is untouched: the next \<^verbatim>\<open>list()\<close> shows what the
  snapshot showed when it was returned. The copy is one level deep, so this says nothing
  about what is inside an \<^verbatim>\<open>id\<close> or \<^verbatim>\<open>title\<close> that is itself an object.
\<close>

theorem snapshot_copies_records:
  assumes "reachable s w" and "list s w = Inr (snap, w1)"
    and "\<forall>a. a < length (heap w1) \<and> a \<notin> owned (heap w1) snap
            \<longrightarrow> a < length (heap w2) \<and> heap w2 ! a = heap w1 ! a"
  shows "\<exists>ts. read_tasks (heap w1) snap = Some ts \<and> listed s w1 = Some ts \<and> listed s w2 = Some ts"
proof -
  from reachable_inv[OF assms(1)] obtain ts where ht: "holds_tasks (heap w) (state s) ts"
    by (auto simp: store_inv_def)
  from list_fresh[OF ht assms(2)] obtain h' where
    w1: "heap w1 = heap w @ h'"
    and fresh: "\<forall>a \<in> owned (heap w1) snap. length (heap w) \<le> a"
    and hs: "holds_tasks (heap w1) snap ts"
    by blast
  have h1: "holds_tasks (heap w1) (state s) ts"
    unfolding w1 using ht by (rule holds_tasks_ext)
  have ow: "owned (heap w1) (state s) = owned (heap w) (state s)"
    unfolding w1 using ht by (rule owned_ext)
  have "\<forall>a \<in> owned (heap w1) (state s). a < length (heap w2) \<and> heap w2 ! a = heap w1 ! a"
  proof
    fix a
    assume "a \<in> owned (heap w1) (state s)"
    with ow owned_bound[OF ht] have lt: "a < length (heap w)" by auto
    with fresh have "a \<notin> owned (heap w1) snap" by auto
    moreover from lt have "a < length (heap w1)" by (simp add: w1)
    ultimately show "a < length (heap w2) \<and> heap w2 ! a = heap w1 ! a"
      using assms(3) by blast
  qed
  with h1 have "holds_tasks (heap w2) (state s) ts"
    by (rule holds_tasks_frame)
  from listed_holds[OF this] listed_holds[OF h1] holds_tasks_read[OF hs] show ?thesis
    by blast
qed

text \<open>
  The caller overwrites the first record of the snapshot and replaces the snapshot's
  elements: the snapshot now reads B, B, and the store still lists A, B.
\<close>

theorem snapshot_copies_records_witness:
  "reachable (fst (projr ex_two_added)) (snd (projr ex_two_added))
   \<and> list (fst (projr ex_two_added)) (snd (projr ex_two_added)) = Inr ex_two_list
   \<and> fst ex_two_list = Ref 16
   \<and> read_tasks (heap (snd ex_two_list)) (fst ex_two_list)
       = Some [(Str ''a'', Str ''A'', Bool False), (Str ''b'', Str ''B'', Bool False)]
   \<and> read_tasks ((heap (snd ex_two_list))
          [14 := Object [(''id'', Str ''z''), (''done'', Bool True)], 16 := Array [Ref 15, Ref 15]])
        (fst ex_two_list)
       = Some [(Str ''b'', Str ''B'', Bool False), (Str ''b'', Str ''B'', Bool False)]
   \<and> listed (fst (projr ex_two_added))
        ((snd ex_two_list)\<lparr>heap := (heap (snd ex_two_list))
          [14 := Object [(''id'', Str ''z''), (''done'', Bool True)], 16 := Array [Ref 15, Ref 15]]\<rparr>)
       = Some [(Str ''a'', Str ''A'', Bool False), (Str ''b'', Str ''B'', Bool False)]"
proof -
  let ?S = "fst (projr ex_two_added)" and ?W = "snd (projr ex_two_added)"
  let ?h1 = "heap (snd ex_two_list)"
  let ?w2 = "(snd ex_two_list)\<lparr>heap := ?h1
          [14 := Object [(''id'', Str ''z''), (''done'', Bool True)], 16 := Array [Ref 15, Ref 15]]\<rparr>"
  have "\<not> isl ex_two_added" by code_simp
  then have re: "reachable ?S ?W"
    unfolding ex_two_added_def by (rule projr_reachable)
  have "\<not> isl (list ?S ?W)" by code_simp
  then have l: "list ?S ?W = Inr (fst ex_two_list, snd ex_two_list)"
    unfolding ex_two_list_def by (rule not_isl_projr)
  have sn: "fst ex_two_list = Ref 16" by code_simp
  have o: "14 \<in> owned ?h1 (fst ex_two_list)" "16 \<in> owned ?h1 (fst ex_two_list)"
    by code_simp+
  have fr: "\<forall>a. a < length ?h1 \<and> a \<notin> owned ?h1 (fst ex_two_list)
            \<longrightarrow> a < length (heap ?w2) \<and> heap ?w2 ! a = ?h1 ! a"
  proof (intro allI impI)
    fix a
    assume a: "a < length ?h1 \<and> a \<notin> owned ?h1 (fst ex_two_list)"
    with o have "a \<noteq> 14" "a \<noteq> 16" by auto
    with a show "a < length (heap ?w2) \<and> heap ?w2 ! a = ?h1 ! a"
      by simp
  qed
  have r1: "read_tasks ?h1 (fst ex_two_list)
       = Some [(Str ''a'', Str ''A'', Bool False), (Str ''b'', Str ''B'', Bool False)]"
    by code_simp
  have r2: "read_tasks (?h1
          [14 := Object [(''id'', Str ''z''), (''done'', Bool True)], 16 := Array [Ref 15, Ref 15]])
        (fst ex_two_list)
       = Some [(Str ''b'', Str ''B'', Bool False), (Str ''b'', Str ''B'', Bool False)]"
    by code_simp
  from snapshot_copies_records[OF re l fr] r1 have "listed ?S ?w2
       = Some [(Str ''a'', Str ''A'', Bool False), (Str ''b'', Str ''B'', Bool False)]"
    by auto
  moreover from l have "list ?S ?W = Inr ex_two_list" by simp
  ultimately show ?thesis
    using re sn r1 r2 by blast
qed

text \<open>
  A stored task whose \<^verbatim>\<open>id\<close> is the object \<^verbatim>\<open>{"n":1}\<close>: the snapshot's record refers to
  the same object as the store's record (address 1), so after the caller's
  \<^verbatim>\<open>snap[0].id.n = 2\<close> the next \<^verbatim>\<open>list()\<close> shows \<^verbatim>\<open>{"n":2}\<close>.
\<close>

theorem snapshot_shares_nested_counterexample:
  "get_prop (heap (snd ex_nested_list))
      (hd (projr (elems (heap (snd ex_nested_list)) (fst ex_nested_list)))) ''id'' = Inr (Ref 1)
   \<and> shown (fst ex_nested) (snd ex_nested_list)
       = Some (''[{'' @ quote ''id'' @ '':{'' @ quote ''n'' @ '':1},'' @ quote ''title'' @ '':''
               @ quote ''t'' @ '','' @ quote ''done'' @ '':false}]'')
   \<and> shown (fst ex_nested)
        ((snd ex_nested_list)\<lparr>heap :=
           poke_id (heap (snd ex_nested_list)) (fst ex_nested_list) 0 ''n'' (Number 2)\<rparr>)
       = Some (''[{'' @ quote ''id'' @ '':{'' @ quote ''n'' @ '':2},'' @ quote ''title'' @ '':''
               @ quote ''t'' @ '','' @ quote ''done'' @ '':false}]'')"
  by code_simp

section \<open>Parsing the text of a task list\<close>

lemma hex_val_hex_digit: "n < 16 \<Longrightarrow> hex_val (hex_digit n) = Some n"
proof -
  assume "n < 16"
  then consider "n < 10" | "10 \<le> n" "n < 16" by linarith
  then show ?thesis
  proof cases
    case 1
    then show ?thesis by (simp add: hex_val_def hex_digit_def Let_def)
  next
    case 2
    then show ?thesis by (simp add: hex_val_def hex_digit_def Let_def)
  qed
qed

lemma parse_chars_escape:
  "parse_chars (escape_char c @ X) = map_option (\<lambda>(s, r). (c # s, r)) (parse_chars X)"
proof -
  consider (q) "c = CHR 0x22" | (b) "c = CHR 0x5C" | (c8) "c = CHR 0x08" | (cC) "c = CHR 0x0C"
    | (cA) "c = CHR 0x0A" | (cD) "c = CHR 0x0D" | (c9) "c = CHR 0x09"
    | (ctl) "c \<noteq> CHR 0x22" "c \<noteq> CHR 0x5C" "c \<noteq> CHR 0x08" "c \<noteq> CHR 0x0C" "c \<noteq> CHR 0x0A"
        "c \<noteq> CHR 0x0D" "c \<noteq> CHR 0x09" "(of_char c :: nat) < 32"
    | (plain) "c \<noteq> CHR 0x22" "c \<noteq> CHR 0x5C" "\<not> (of_char c :: nat) < 32"
    by blast
  then show ?thesis
  proof cases
    case ctl
    let ?n = "of_char c :: nat"
    have d: "?n div 16 < 16" "?n mod 16 < 16" using ctl(8) by auto
    have v: "((0 * 16 + 0) * 16 + ?n div 16) * 16 + ?n mod 16 = ?n" by simp
    have e: "escape_char c = [CHR 0x5C, CHR ''u'', CHR ''0'', CHR ''0'', hex_digit (?n div 16), hex_digit (?n mod 16)]"
      using ctl by (simp add: escape_char_def)
    have z: "hex_val (CHR ''0'') = Some 0" by (simp add: hex_val_def)
    have lt: "?n < 256" using ctl(8) by simp
    show ?thesis
      unfolding e
      by (simp add: z hex_val_hex_digit[OF d(1)] hex_val_hex_digit[OF d(2)] lt Let_def)
  next
    case plain
    then show ?thesis
      by (cases "c = CHR 0x08 \<or> c = CHR 0x0C \<or> c = CHR 0x0A \<or> c = CHR 0x0D \<or> c = CHR 0x09")
         (auto simp: escape_char_def)
  qed (simp_all add: escape_char_def unescape_def)
qed

lemma parse_chars_quoted:
  "parse_chars (concat (map escape_char s) @ CHR 0x22 # rest) = Some (s, rest)"
  by (induction s) (simp_all add: parse_chars_escape)

lemma skip_ws_non_ws: "\<not> is_ws c \<Longrightarrow> skip_ws (c # cs) = c # cs"
  by (simp add: skip_ws_def)

lemma is_ws_simps [simp]:
  "\<not> is_ws (CHR 0x22)" "\<not> is_ws (CHR ''['')" "\<not> is_ws (CHR '']'')" "\<not> is_ws (CHR ''{'')"
  "\<not> is_ws (CHR ''}'')" "\<not> is_ws (CHR '':'')" "\<not> is_ws (CHR '','')" "\<not> is_ws (CHR ''t'')"
  "\<not> is_ws (CHR ''f'')"
  by (simp_all add: is_ws_def)

lemma parse_value_string:
  "parse_value (Suc n) (quote s @ rest) = Some (JStr s, rest)"
  by (simp add: quote_def skip_ws_non_ws parse_chars_quoted)

lemma parse_value_bool:
  "parse_value (Suc n) ((if d then ''true'' else ''false'') @ rest) = Some (JBool d, rest)"
  by (cases d) (simp_all add: skip_ws_non_ws)

lemma quote_keys:
  "quote ''id'' = [CHR 0x22, CHR ''i'', CHR ''d'', CHR 0x22]"
  "quote ''title'' = [CHR 0x22, CHR ''t'', CHR ''i'', CHR ''t'', CHR ''l'', CHR ''e'', CHR 0x22]"
  "quote ''done'' = [CHR 0x22, CHR ''d'', CHR ''o'', CHR ''n'', CHR ''e'', CHR 0x22]"
  by (simp_all add: quote_def escape_char_def)

lemma task_text_unfold:
  "task_text (i, t, d) @ rest =
     CHR ''{'' # CHR 0x22 # CHR ''i'' # CHR ''d'' # CHR 0x22 # CHR '':'' # (quote i @
     (CHR '','' # CHR 0x22 # CHR ''t'' # CHR ''i'' # CHR ''t'' # CHR ''l'' # CHR ''e'' # CHR 0x22
        # CHR '':'' # (quote t @
     (CHR '','' # CHR 0x22 # CHR ''d'' # CHR ''o'' # CHR ''n'' # CHR ''e'' # CHR 0x22
        # CHR '':'' # ((if d then ''true'' else ''false'') @ (CHR ''}'' # rest))))))"
  by (simp add: task_text_def quote_keys)

lemma parse_members_done:
  assumes "\<And>n rest. parse_value (Suc n) (b @ rest) = Some (JBool d, rest)"
  shows "parse_members (Suc (Suc n))
     (CHR 0x22 # CHR ''d'' # CHR ''o'' # CHR ''n'' # CHR ''e'' # CHR 0x22
        # CHR '':'' # (b @ (CHR ''}'' # rest)))
   = Some ([(''done'', JBool d)], rest)"
  by (simp add: skip_ws_non_ws assms unescape_def del: parse_value.simps)

lemma parse_members_title:
  assumes "\<And>n rest. parse_value (Suc n) (b @ rest) = Some (JBool d, rest)"
  shows "parse_members (Suc (Suc (Suc n)))
     (CHR 0x22 # CHR ''t'' # CHR ''i'' # CHR ''t'' # CHR ''l'' # CHR ''e'' # CHR 0x22
        # CHR '':'' # (quote t @
     (CHR '','' # CHR 0x22 # CHR ''d'' # CHR ''o'' # CHR ''n'' # CHR ''e'' # CHR 0x22
        # CHR '':'' # (b @ (CHR ''}'' # rest)))))
   = Some ([(''title'', JStr t), (''done'', JBool d)], rest)"
proof -
  have "parse_members (Suc (Suc (Suc n)))
     (CHR 0x22 # CHR ''t'' # CHR ''i'' # CHR ''t'' # CHR ''l'' # CHR ''e'' # CHR 0x22
        # CHR '':'' # (quote t @
     (CHR '','' # CHR 0x22 # CHR ''d'' # CHR ''o'' # CHR ''n'' # CHR ''e'' # CHR 0x22
        # CHR '':'' # (b @ (CHR ''}'' # rest)))))
    = map_option (\<lambda>(ms, rest). ((''title'', JStr t) # ms, rest))
        (parse_members (Suc (Suc n))
          (CHR 0x22 # CHR ''d'' # CHR ''o'' # CHR ''n'' # CHR ''e'' # CHR 0x22
        # CHR '':'' # (b @ (CHR ''}'' # rest))))"
    apply (subst parse_members.simps)
    apply (simp add: skip_ws_non_ws parse_value_string unescape_def
        del: parse_value.simps parse_members.simps)
    done
  then show ?thesis
    by (simp only: parse_members_done[OF assms]) simp
qed

lemma parse_members_id:
  assumes "\<And>n rest. parse_value (Suc n) (b @ rest) = Some (JBool d, rest)"
  shows "parse_members (Suc (Suc (Suc (Suc n))))
     (CHR 0x22 # CHR ''i'' # CHR ''d'' # CHR 0x22 # CHR '':'' # (quote i @
     (CHR '','' # CHR 0x22 # CHR ''t'' # CHR ''i'' # CHR ''t'' # CHR ''l'' # CHR ''e'' # CHR 0x22
        # CHR '':'' # (quote t @
     (CHR '','' # CHR 0x22 # CHR ''d'' # CHR ''o'' # CHR ''n'' # CHR ''e'' # CHR 0x22
        # CHR '':'' # (b @ (CHR ''}'' # rest)))))))
   = Some ([(''id'', JStr i), (''title'', JStr t), (''done'', JBool d)], rest)"
proof -
  have "parse_members (Suc (Suc (Suc (Suc n))))
     (CHR 0x22 # CHR ''i'' # CHR ''d'' # CHR 0x22 # CHR '':'' # (quote i @
     (CHR '','' # CHR 0x22 # CHR ''t'' # CHR ''i'' # CHR ''t'' # CHR ''l'' # CHR ''e'' # CHR 0x22
        # CHR '':'' # (quote t @
     (CHR '','' # CHR 0x22 # CHR ''d'' # CHR ''o'' # CHR ''n'' # CHR ''e'' # CHR 0x22
        # CHR '':'' # (b @ (CHR ''}'' # rest)))))))
    = map_option (\<lambda>(ms, rest). ((''id'', JStr i) # ms, rest))
        (parse_members (Suc (Suc (Suc n)))
     (CHR 0x22 # CHR ''t'' # CHR ''i'' # CHR ''t'' # CHR ''l'' # CHR ''e'' # CHR 0x22
        # CHR '':'' # (quote t @
     (CHR '','' # CHR 0x22 # CHR ''d'' # CHR ''o'' # CHR ''n'' # CHR ''e'' # CHR 0x22
        # CHR '':'' # (b @ (CHR ''}'' # rest))))))"
    apply (subst parse_members.simps)
    apply (simp add: skip_ws_non_ws parse_value_string unescape_def
        del: parse_value.simps parse_members.simps)
    done
  then show ?thesis
    by (simp only: parse_members_title[OF assms]) simp
qed

lemma parse_value_object:
  assumes "\<And>n rest. parse_value (Suc n) (b @ rest) = Some (JBool d, rest)"
  shows "parse_value (Suc (Suc (Suc (Suc (Suc n)))))
     (CHR ''{'' # CHR 0x22 # CHR ''i'' # CHR ''d'' # CHR 0x22 # CHR '':'' # (quote i @
     (CHR '','' # CHR 0x22 # CHR ''t'' # CHR ''i'' # CHR ''t'' # CHR ''l'' # CHR ''e'' # CHR 0x22
        # CHR '':'' # (quote t @
     (CHR '','' # CHR 0x22 # CHR ''d'' # CHR ''o'' # CHR ''n'' # CHR ''e'' # CHR 0x22
        # CHR '':'' # (b @ (CHR ''}'' # rest)))))))
   = Some (JObj [(''id'', JStr i), (''title'', JStr t), (''done'', JBool d)], rest)"
  apply (subst parse_value.simps)
  apply (simp only: skip_ws_non_ws is_ws_simps not_False_eq_True list.case)
  apply (simp only: parse_members_id[OF assms])
  apply simp
  done

lemma parse_value_task:
  "parse_value (Suc (Suc (Suc (Suc (Suc n))))) (task_text u @ rest) = Some (task_json u, rest)"
proof -
  obtain i t d where u: "u = (i, t, d)" by (cases u)
  define b where "b = (if d then ''true'' else ''false'')"
  have pb: "\<And>n rest. parse_value (Suc n) (b @ rest) = Some (JBool d, rest)"
    unfolding b_def by (rule parse_value_bool)
  show ?thesis
    unfolding u task_text_unfold b_def[symmetric]
    by (simp only: parse_value_object[OF pb]) (simp add: task_json_def)
qed

lemma task_text_Cons: "\<exists>r. task_text u = CHR ''{'' # r"
  by (simp add: task_text_def)

lemma join_Cons_Cons: "join (x # y # ys) @ rest = x @ CHR '','' # (join (y # ys) @ rest)"
  by simp

lemma parse_elems_tasks:
  "us \<noteq> [] \<Longrightarrow> length us + 5 \<le> n \<Longrightarrow>
     parse_elems n (join (map task_text us) @ CHR '']'' # rest) = Some (map task_json us, rest)"
proof (induction us arbitrary: n)
  case Nil
  then show ?case by simp
next
  case (Cons u us)
  from Cons.prems(2) have "6 + length us \<le> n" by simp
  then obtain m where "n = (6 + length us) + m"
    using le_Suc_ex by blast
  then have n: "n = Suc (Suc (Suc (Suc (Suc (Suc (length us + m))))))"
    by simp
  show ?case
  proof (cases "us = []")
    case True
    have "parse_elems n (task_text u @ CHR '']'' # rest) = Some ([task_json u], rest)"
      unfolding n
      apply (subst parse_elems.simps)
      apply (simp only: parse_value_task)
      apply (simp add: skip_ws_non_ws del: parse_value.simps parse_elems.simps)
      done
    with True show ?thesis by simp
  next
    case False
    have l: "length us + 5 \<le> Suc (Suc (Suc (Suc (Suc (length us + m)))))"
      by simp
    note ih = Cons.IH[OF False l]
    have j: "join (map task_text (u # us)) @ CHR '']'' # rest
        = task_text u @ (CHR '','' # (join (map task_text us) @ CHR '']'' # rest))"
      using False by (cases us) simp_all
    have "parse_elems n (task_text u @ (CHR '','' # (join (map task_text us) @ CHR '']'' # rest)))
      = Some (task_json u # map task_json us, rest)"
      unfolding n
      apply (subst parse_elems.simps)
      apply (simp only: parse_value_task)
      apply (simp add: skip_ws_non_ws ih del: parse_value.simps parse_elems.simps join.simps)
      done
    then show ?thesis
      unfolding j by simp
  qed
qed

lemma length_join_tasks: "length us \<le> length (join (map task_text us))"
proof (induction us rule: induct_list012)
  case 1
  then show ?case by simp
next
  case (2 u)
  then show ?case using task_text_Cons[of u] by auto
next
  case (3 u u' us)
  then show ?case by simp
qed

lemma parse_value_tasks:
  assumes "length us + 6 \<le> n"
  shows "parse_value n (tasks_text us @ rest) = Some (JArr (map task_json us), rest)"
proof -
  from assms obtain m where n: "n = Suc m" and m: "length us + 5 \<le> m"
    by (cases n) auto
  show ?thesis
  proof (cases us)
    case Nil
    then show ?thesis
      unfolding n by (simp add: tasks_text_def skip_ws_non_ws)
  next
    case (Cons u us')
    from task_text_Cons[of u] obtain r where r: "task_text u = CHR ''{'' # r" by blast
    have ne: "us \<noteq> []" using Cons by simp
    have hd: "\<exists>r'. join (map task_text us) @ CHR '']'' # rest = CHR ''{'' # r'"
      using Cons r by (cases us') simp_all
    then obtain r' where r': "join (map task_text us) @ CHR '']'' # rest = CHR ''{'' # r'"
      by blast
    have t: "tasks_text us @ rest = CHR ''['' # (join (map task_text us) @ CHR '']'' # rest)"
      by (simp add: tasks_text_def)
    have pe: "parse_elems m (CHR ''{'' # r') = Some (map task_json us, rest)"
      using parse_elems_tasks[OF ne m, of rest] unfolding r' .
    show ?thesis
      unfolding n t r'
      apply (subst parse_value.simps)
      apply (simp add: skip_ws_non_ws pe del: parse_value.simps parse_elems.simps)
      done
  qed
qed

lemma JSON_parse_tree_tasks: "JSON_parse_tree (tasks_text us) = Some (JArr (map task_json us))"
proof -
  have "length us + 2 \<le> length (tasks_text us)"
    using length_join_tasks[of us] by (simp add: tasks_text_def)
  then have "length us + 6 \<le> 2 * length (tasks_text us) + 2"
    by simp
  from parse_value_tasks[OF this, of "[]"] show ?thesis
    by (simp add: JSON_parse_tree_def skip_ws_def)
qed

section \<open>Writing a task list and reading it back\<close>

lemma sequence_map:
  "list_all2 (\<lambda>x y. f x = Inr y) xs ys \<Longrightarrow> sequence (map f xs) = Inr ys"
  by (induction xs ys rule: list_all2_induct) simp_all

lemma ser_record:
  assumes "holds_task h x (typed u)" and "x \<noteq> Ref a"
  shows "ser h [a] x = Inr (Some (task_text u))"
proof -
  from assms obtain b where x: "x = Ref b" and b: "b < length h" "b \<noteq> a"
    and hb: "h ! b = Object (fields (typed u))"
    by (auto simp: holds_task_def split: jsval.splits)
  show ?thesis
    unfolding x using b hb
    by (simp add: fields_def typed_def task_text_def)
qed

lemma ser_tasks:
  assumes "holds_tasks h st (map typed us)"
  shows "JSON_stringify h st = Inr (Some (tasks_text us))"
proof -
  from assms obtain a xs where st: "st = Ref a" and a: "a < length h" and ha: "h ! a = Array xs"
    and all: "list_all2 (holds_task h) xs (map typed us)"
    by (auto simp: holds_tasks_def elems_def split: sum.splits jsval.splits if_splits obj.splits)
  have "list_all2 (\<lambda>x y. ser h [a] x = Inr y) xs (map (\<lambda>u. Some (task_text u)) us)"
    unfolding list_all2_map2
    using all[unfolded list_all2_map2]
  proof (rule list.rel_mono_strong)
    fix x u
    assume hx: "holds_task h x (typed u)"
    have "x \<noteq> Ref a"
      using hx ha by (auto simp: holds_task_def)
    with hx show "ser h [a] x = Inr (Some (task_text u))"
      by (rule ser_record)
  qed
  then have "sequence (map (ser h [a]) xs) = Inr (map (\<lambda>u. Some (task_text u)) us)"
    by (rule sequence_map)
  then show ?thesis
    unfolding JSON_stringify_def st using a ha
    by (simp add: tasks_text_def comp_def)
qed

lemma persist_tasks:
  assumes "holds_tasks (heap w) (state s) (map typed us)"
  shows "(readable w \<and> accepts w (storageKey s) (tasks_text us) \<longrightarrow>
            persist s w = w\<lparr>items := (items w)(storageKey s \<mapsto> tasks_text us)\<rparr>)
       \<and> (\<not> (readable w \<and> accepts w (storageKey s) (tasks_text us)) \<longrightarrow>
            (\<exists>e. persist s w = w\<lparr>console := console w @ [LogError ''Failed to persist store:'' e]\<rparr>))"
  using ser_tasks[OF assms] by (auto simp: persist_def setItem_def Let_def)

lemma persist_tasks_quiet:
  assumes "holds_tasks (heap w) (state s) (map typed us)"
    and "console (persist s w) = console w"
  shows "items (persist s w) (storageKey s) = Some (tasks_text us)"
proof (cases "readable w \<and> accepts w (storageKey s) (tasks_text us)")
  case True
  with persist_tasks[OF assms(1)] show ?thesis by simp
next
  case False
  with persist_tasks[OF assms(1)] obtain e where
    "persist s w = w\<lparr>console := console w @ [LogError ''Failed to persist store:'' e]\<rparr>"
    by blast
  with assms(2) show ?thesis by simp
qed

lemma persist_console: "\<exists>c. console (persist s w) = console w @ c"
  using persist_cases[of s w] by auto

lemma hydrated_from_typed: "hydrated_from (task_json u) t \<Longrightarrow> t = typed u"
  by (cases t)
     (auto simp: hydrated_from_def task_json_def stored_prop_def kept_as_is_def as_stored_def typed_def)

lemma hydrated_all_typed: "list_all2 hydrated_from (map task_json us) ts \<Longrightarrow> ts = map typed us"
proof (induction us arbitrary: ts)
  case Nil
  then show ?case by simp
next
  case (Cons u us)
  then show ?case
    by (auto simp: list_all2_Cons1 dest: hydrated_from_typed)
qed

lemma task_json_not_null: "JNull \<notin> set (map task_json us)"
  by (auto simp: task_json_def)

lemma tasks_text_nonempty: "tasks_text us \<noteq> []"
  by (simp add: tasks_text_def)

lemma hydrate_ext:
  assumes "hydrate key w st = Inr (st1, h1)"
  shows "\<exists>e. h1 = heap w @ e"
proof -
  from assms obtain raw where raw: "getItem w key = Inr raw"
    by (cases "getItem w key") (auto simp: hydrate_def)
  show ?thesis
  proof (cases "truthy raw")
    case False
    with assms raw show ?thesis by (auto simp: hydrate_def)
  next
    case True
    with assms raw obtain parsed hp where p: "JSON_parse (heap w) raw = Inr (parsed, hp)"
      by (cases "JSON_parse (heap w) raw") (auto simp: hydrate_def)
    then obtain j where j: "materialize j (heap w) = (parsed, hp)"
      by (auto simp: JSON_parse_def split: option.splits)
    from materialize_ext(1)[of j "heap w"] j obtain e where hp: "hp = heap w @ e"
      by auto
    show ?thesis
    proof (cases "isArray hp parsed")
      case False
      with assms raw True p have "h1 = hp" by (auto simp: hydrate_def)
      with hp show ?thesis by blast
    next
      case isa: True
      with assms raw True p have am: "Array_map hydrate_item hp parsed = Inr (st1, h1)"
        by (auto simp: hydrate_def)
      then obtain xs where xs: "elems hp parsed = Inr xs"
        by (cases "elems hp parsed") (auto simp: Array_map_def)
      from am xs obtain ys hm where m: "map_cb hydrate_item hp xs = Inr (ys, hm)"
        by (cases "map_cb hydrate_item hp xs") (auto simp: Array_map_def)
      from am xs m have h1: "h1 = hm @ [Array ys]"
        by (auto simp: Array_map_def alloc_def)
      from map_cb_hydrate[OF m] obtain e' where "hm = hp @ e'" by blast
      with h1 hp show ?thesis by simp
    qed
  qed
qed

lemma createStore_ext:
  assumes "createStore key w = (s, w')"
  shows "\<exists>e. heap w' = heap w @ e"
proof (cases "hydrate key (w\<lparr>heap := heap w @ [Array []]\<rparr>) (Ref (length (heap w)))")
  case (Inl e)
  with assms have "heap w' = heap w @ [Array [], Array []]"
    by (auto simp: createStore_def alloc_def)
  then show ?thesis by blast
next
  case (Inr r)
  obtain st1 h1 where r: "r = (st1, h1)" by (cases r)
  from hydrate_ext[OF Inr[unfolded r]] obtain e where "h1 = (heap w @ [Array []]) @ e"
    by auto
  moreover from createStore_hydrated(2)[OF Inr[unfolded r] assms] have "heap w' = h1" .
  ultimately show ?thesis by simp
qed

lemma createStore_from_text:
  assumes "createStore key w = (s, w')" and "readable w"
    and "items w key = Some (tasks_text us)"
  shows "holds_tasks (heap w') (state s) (map typed us)" and "\<exists>e. heap w' = heap w @ e"
proof -
  let ?w0 = "w\<lparr>heap := heap w @ [Array []]\<rparr>"
  let ?st0 = "Ref (length (heap w))"
  from hydrate_array[of ?w0 key "tasks_text us" "map task_json us" ?st0] assms(2,3)
    tasks_text_nonempty JSON_parse_tree_tasks task_json_not_null
  obtain st1 h1 ts where
    hy: "hydrate key ?w0 ?st0 = Inr (st1, h1)"
    and ht: "holds_tasks h1 st1 ts" and rel: "list_all2 hydrated_from (map task_json us) ts"
    by auto
  from createStore_hydrated[OF hy assms(1)] ht hydrated_all_typed[OF rel]
  show "holds_tasks (heap w') (state s) (map typed us)"
    by simp
  show "\<exists>e. heap w' = heap w @ e"
    using assms(1) by (rule createStore_ext)
qed

lemma task_object_ext: "task_object h task u \<Longrightarrow> task_object (h @ e) task u"
  by (auto simp: task_object_def intro: get_prop_ext)

lemma run_adds:
  assumes "holds_tasks (heap w) (state s) (map typed us0)"
    and "list_all2 (task_object (heap w)) tasks us"
  shows "\<exists>s' w'. run (map Add tasks) s w = Inr (s', w')
      \<and> holds_tasks (heap w') (state s') (map typed (us0 @ us))
      \<and> storageKey s' = storageKey s
      \<and> readable w' = readable w
      \<and> (\<exists>c. console w' = console w @ c)
      \<and> (tasks \<noteq> [] \<and> console w' = console w \<longrightarrow>
            items w' (storageKey s) = Some (tasks_text (us0 @ us)) \<and> readable w')"
  using assms
proof (induction tasks arbitrary: s w us0 us)
  case Nil
  then show ?case by simp
next
  case (Cons task tasks)
  from Cons.prems(2) obtain u us' where us: "us = u # us'"
    and tu: "task_object (heap w) task u"
    and rest: "list_all2 (task_object (heap w)) tasks us'"
    by (auto simp: list_all2_Cons1)
  obtain i t d where u: "u = (i, t, d)" by (cases u)
  from tu have g: "get_prop (heap w) task ''id'' = Inr (Str i)"
    "get_prop (heap w) task ''title'' = Inr (Str t)"
    "get_prop (heap w) task ''done'' = Inr (Bool d)"
    by (simp_all add: task_object_def u)
  have new: "map typed us0 @ [(Str i, Str t, Bool (truthy (Bool d)))] = map typed (us0 @ [u])"
    by (simp add: typed_def u)
  from add_listed[OF Cons.prems(1) g] obtain snap s1 w1 hm h' where
    a: "add s task w = Inr (snap, s1, w1)"
    and h1: "holds_tasks (heap w1) (state s1) (map typed (us0 @ [u]))"
    and hm: "holds_tasks (heap w @ hm) (state s1) (map typed (us0 @ [u]))"
    and k: "storageKey s1 = storageKey s"
    and w1: "w1 = (persist s1 (w\<lparr>heap := heap w @ hm\<rparr>))\<lparr>heap := heap w @ hm @ h'\<rparr>"
    unfolding new by blast
  let ?wm = "w\<lparr>heap := heap w @ hm\<rparr>"
  have hw1: "heap w1 = heap w @ (hm @ h')"
    by (simp add: w1)
  have rd1: "readable w1 = readable w"
    using persist_cases[of s1 ?wm] persist_tasks[of ?wm s1 "us0 @ [u]"] hm
    by (cases "readable w \<and> accepts w (storageKey s1) (tasks_text (us0 @ [u]))") (auto simp: w1)
  from persist_console[of s1 ?wm] obtain c1 where c1: "console w1 = console w @ c1"
    by (auto simp: w1)
  have quiet: "items w1 (storageKey s) = Some (tasks_text (us0 @ [u]))" if "console w1 = console w"
  proof -
    have "holds_tasks (heap ?wm) (state s1) (map typed (us0 @ [u]))"
      using hm by simp
    moreover have "console (persist s1 ?wm) = console ?wm"
      using that by (simp add: w1)
    ultimately have "items (persist s1 ?wm) (storageKey s1) = Some (tasks_text (us0 @ [u]))"
      by (rule persist_tasks_quiet)
    then show ?thesis by (simp add: w1 k)
  qed
  have rest1: "list_all2 (task_object (heap w1)) tasks us'"
    unfolding hw1 using rest by (rule list_all2_mono) (rule task_object_ext)
  from Cons.IH[OF h1 rest1] obtain s' w' where
    r: "run (map Add tasks) s1 w1 = Inr (s', w')"
    and h': "holds_tasks (heap w') (state s') (map typed ((us0 @ [u]) @ us'))"
    and k': "storageKey s' = storageKey s1"
    and rd': "readable w' = readable w1"
    and c': "\<exists>c. console w' = console w1 @ c"
    and q': "tasks \<noteq> [] \<and> console w' = console w1 \<longrightarrow>
            items w' (storageKey s1) = Some (tasks_text ((us0 @ [u]) @ us')) \<and> readable w'"
    by blast
  from c' obtain c2 where c2: "console w' = console w1 @ c2" by blast
  have run: "run (map Add (task # tasks)) s w = Inr (s', w')"
    by (simp add: a r)
  have quiet_readable: "readable w" if "console w1 = console w"
  proof (rule ccontr)
    assume "\<not> readable w"
    then have "\<not> (readable ?wm \<and> accepts ?wm (storageKey s1) (tasks_text (us0 @ [u])))"
      by simp
    with persist_tasks[of ?wm s1 "us0 @ [u]"] hm obtain e where
      "persist s1 ?wm = ?wm\<lparr>console := console ?wm @ [LogError ''Failed to persist store:'' e]\<rparr>"
      by auto
    then have "console w1 = console w @ [LogError ''Failed to persist store:'' e]"
      by (simp add: w1)
    with that show False by simp
  qed
  have final: "items w' (storageKey s) = Some (tasks_text (us0 @ us)) \<and> readable w'"
    if "console w' = console w"
  proof -
    from that c1 c2 have e: "c1 = []" "c2 = []" by simp_all
    then have cw1: "console w1 = console w" and cw': "console w' = console w1"
      using c1 c2 by simp_all
    show ?thesis
    proof (cases "tasks = []")
      case True
      with r have "w' = w1" by simp
      moreover from rest True have "us' = []" by simp
      ultimately show ?thesis
        using quiet[OF cw1] quiet_readable[OF cw1] rd1 by (simp add: us)
    next
      case False
      with q' cw' show ?thesis by (simp add: us k)
    qed
  qed
  show ?case
    using run h' k k' rd' rd1 c1 c2 final
    by (intro exI[of _ s'] exI[of _ w'] conjI) (simp_all add: us)
qed

text \<open>
  C1. A store is made with key K; its collection consists of tasks of the Task shape (it
  is empty when the key was absent). Tasks T1..Tn, objects with a string \<^verbatim>\<open>id\<close>, a string
  \<^verbatim>\<open>title\<close> and a boolean \<^verbatim>\<open>done\<close>, are added one after the other, n at least 1, and
  no persistence failure is logged. Then a second store made with the same key K lists
  exactly what the first store lists: the same tasks in the same order.
\<close>

theorem round_trip:
  assumes "createStore key w0 = (s1, w1)"
    and "listed s1 w1 = Some (map typed us0)"
    and "list_all2 (task_object (heap w1)) tasks us"
    and "tasks \<noteq> []"
    and "run (map Add tasks) s1 w1 = Inr (s, w)"
    and "console w = console w1"
    and "createStore key w = (s2, w2)"
  shows "listed s2 w2 = Some (map typed (us0 @ us)) \<and> listed s w2 = Some (map typed (us0 @ us))"
proof -
  have re: "reachable s1 w1"
    using assms(1) by (rule reachable.by_create)
  note h1 = reachable_listed(1)[OF re assms(2)]
  have k1: "storageKey s1 = key"
    using assms(1) by (rule createStore_inv(2))
  from run_adds[OF h1 assms(3)] assms(5) have
    hs: "holds_tasks (heap w) (state s) (map typed (us0 @ us))"
    and q: "tasks \<noteq> [] \<and> console w = console w1 \<longrightarrow>
            items w (storageKey s1) = Some (tasks_text (us0 @ us)) \<and> readable w"
    by auto
  from q assms(4,6) k1 have it: "items w key = Some (tasks_text (us0 @ us))" and rd: "readable w"
    by simp_all
  from createStore_from_text[OF assms(7) rd it] obtain e where
    h2: "holds_tasks (heap w2) (state s2) (map typed (us0 @ us))" and e: "heap w2 = heap w @ e"
    by blast
  have "holds_tasks (heap w2) (state s) (map typed (us0 @ us))"
    unfolding e using hs by (rule holds_tasks_ext)
  with h2 show ?thesis
    by (simp add: listed_holds)
qed

text \<open>\<^verbatim>\<open>add(A); add(B)\<close> on an empty storage, then a second store with the same key.\<close>

theorem round_trip_witness:
  "createStore ''k'' (page two_tasks Map.empty) = ex_first
   \<and> listed (fst ex_first) (snd ex_first) = Some (map typed [])
   \<and> list_all2 (task_object (heap (snd ex_first))) [Ref 0, Ref 1]
        [(''a'', ''A'', False), (''b'', ''B'', False)]
   \<and> run (map Add [Ref 0, Ref 1]) (fst ex_first) (snd ex_first) = Inr ex_first_added
   \<and> console (snd ex_first_added) = console (snd ex_first)
   \<and> createStore ''k'' (snd ex_first_added) = ex_second
   \<and> listed (fst ex_second) (snd ex_second)
       = Some [(Str ''a'', Str ''A'', Bool False), (Str ''b'', Str ''B'', Bool False)]
   \<and> listed (fst ex_first_added) (snd ex_second)
       = Some [(Str ''a'', Str ''A'', Bool False), (Str ''b'', Str ''B'', Bool False)]"
proof -
  have c1: "createStore ''k'' (page two_tasks Map.empty) = (fst ex_first, snd ex_first)"
    by (simp add: ex_first_def)
  have l1: "listed (fst ex_first) (snd ex_first) = Some (map typed [])"
    by code_simp
  have ts: "list_all2 (task_object (heap (snd ex_first))) [Ref 0, Ref 1]
        [(''a'', ''A'', False), (''b'', ''B'', False)]"
    by code_simp
  have ne: "[Ref 0, Ref 1] \<noteq> ([] :: jsval list)"
    by simp
  have "\<not> isl (run (map Add [Ref 0, Ref 1]) (fst ex_first) (snd ex_first))"
    by code_simp
  then have r: "run (map Add [Ref 0, Ref 1]) (fst ex_first) (snd ex_first)
      = Inr (fst ex_first_added, snd ex_first_added)"
    unfolding ex_first_added_def by (rule not_isl_projr)
  have co: "console (snd ex_first_added) = console (snd ex_first)"
    by code_simp
  have c2: "createStore ''k'' (snd ex_first_added) = (fst ex_second, snd ex_second)"
    by (simp add: ex_second_def)
  from round_trip[OF c1 l1 ts ne r co c2] c1 l1 ts r co c2 show ?thesis
    by (simp add: typed_def)
qed

end
